theory Spec2Isabelle
  imports Complex_Main
begin

section \<open>Cross-sections\<close>

text \<open>
  Source: \<^verbatim>\<open>wisdem/commonse/cylinder_member.py\<close>. The class \<^verbatim>\<open>CrossSection\<close> holds the scalar
  properties of one axial interval; \<^verbatim>\<open>CircCrossSection\<close> adds the diameter \<^verbatim>\<open>D\<close>,
  \<^verbatim>\<open>RectCrossSection\<close> the side lengths \<^verbatim>\<open>a\<close> and \<^verbatim>\<open>b\<close>. The attributes are the fields of
  a record (prefixed \<open>sec_\<close>, as the outputs \<^verbatim>\<open>section_t\<close>, \<^verbatim>\<open>section_A\<close>, ... of the source
  are); the subclass is the field \<open>sec_dims\<close>. Numbers are the elements of a field \<open>'a\<close>
  (exact arithmetic); \<^verbatim>\<open>1e-2\<close> is \<open>1 / 100\<close> and \<^verbatim>\<open>1e2\<close> is \<open>100\<close>.
\<close>

datatype 'a dims = Base | Circ 'a | Rect 'a 'a

record 'a cross_section =
  sec_t :: 'a
  sec_A :: 'a
  sec_Asx :: 'a
  sec_Asy :: 'a
  sec_Ixx :: 'a
  sec_Iyy :: 'a
  sec_J0 :: 'a
  sec_E :: 'a
  sec_G :: 'a
  sec_rho :: 'a
  sec_TorsC :: 'a
  sec_sigy :: 'a
  sec_dims :: "'a dims"

text \<open>\<^verbatim>\<open>CrossSection.make_ghost\<close>: the method of the base class.\<close>

definition make_ghost_base :: "('a::field) cross_section \<Rightarrow> 'a cross_section" where
  "make_ghost_base c =
     c\<lparr>sec_t := 1 / 100,
       sec_A := 1 / 100, sec_Asx := 1 / 100, sec_Asy := 1 / 100,
       sec_Ixx := 1 / 100, sec_Iyy := 1 / 100, sec_J0 := 1 / 100,
       sec_rho := 1 / 100,
       sec_E := 100 * sec_E c, sec_G := 100 * sec_G c, sec_sigy := 100 * sec_sigy c\<rparr>"

text \<open>
  \<^verbatim>\<open>make_ghost\<close> as dispatched on the class of the object: the subclasses call the base
  method and then overwrite their own dimensions.
\<close>

definition make_ghost :: "('a::field) cross_section \<Rightarrow> 'a cross_section" where
  "make_ghost c =
     (case sec_dims c of
        Base \<Rightarrow> make_ghost_base c
      | Circ d \<Rightarrow> (make_ghost_base c)\<lparr>sec_dims := Circ (1 / 100)\<rparr>
      | Rect x y \<Rightarrow> (make_ghost_base c)\<lparr>sec_dims := Rect (1 / 100) (1 / 100)\<rparr>)"

section \<open>The section registry\<close>

text \<open>
  \<^verbatim>\<open>self.sections\<close> is a \<^verbatim>\<open>SortedDict\<close> from axial position to a cross-section object or
  \<^verbatim>\<open>None\<close>. It is modelled as an association list in ascending key order whose values are
  optional references into an object store: Python stores references, \<^verbatim>\<open>copy.copy\<close>
  allocates a new object, and the overlays mutate objects in place. The store is a total
  function from addresses together with the next free address.

  An object in the store is the record of its attribute bindings, and \<open>'a\<close> is the type of
  what an attribute is bound to. Where every attribute is bound to a number, \<open>'a\<close> is a type
  of numbers; where an attribute may be bound to a numpy array, \<open>'a\<close> is the type \<open>'v attr\<close>
  below, in which such a binding is the address of the array in a store of arrays.
\<close>

type_synonym ref = nat

record ('k, 'a) member =
  sections :: "('k \<times> ref option) list"
  heap :: "ref \<Rightarrow> 'a cross_section"
  fresh :: ref

text \<open>
  The exceptions the modelled code raises. Every \<^verbatim>\<open>ValueError\<close> carries the place that
  raised it: the four geometry checks of \<^verbatim>\<open>DiscretizationYAML.compute\<close>, the check of
  \<^verbatim>\<open>add_node\<close> ("Cannot insert node before start of list"), \<^verbatim>\<open>np.linspace\<close> called with a
  negative number of samples, and the assignment to a declared output of an array that
  does not have the declared shape.
\<close>

datatype reason =
  Section_height | Wall_thickness | Diameter | Rectangular_lengths
  | Node_before_start | Negative_samples | Output_shape

datatype error = ValueError reason | IndexError | AttributeError

text \<open>\<^verbatim>\<open>SortedDict.bisect_left\<close>: the index of the first key not below \<open>s\<close>.\<close>

definition bisect_left :: "('k::linorder) \<Rightarrow> ('k \<times> 'v) list \<Rightarrow> nat" where
  "bisect_left s kvs = length (takeWhile (\<lambda>kv. fst kv < s) kvs)"

text \<open>\<^verbatim>\<open>d[s] = v\<close> on a \<^verbatim>\<open>SortedDict\<close>: overwrite the value of an existing key, or insert in order.\<close>

fun sd_set :: "('k::linorder) \<Rightarrow> 'v \<Rightarrow> ('k \<times> 'v) list \<Rightarrow> ('k \<times> 'v) list" where
  "sd_set s v [] = [(s, v)]"
| "sd_set s v ((k, w) # kvs) =
     (if s < k then (s, v) # (k, w) # kvs
      else if s = k then (k, v) # kvs
      else (k, w) # sd_set s v kvs)"

definition keys :: "('k, 'a) member \<Rightarrow> 'k list" where
  "keys m = map fst (sections m)"

text \<open>Object allocation: the new object gets the next free address.\<close>

definition alloc :: "'a cross_section \<Rightarrow> ('k, 'a) member \<Rightarrow> ('k, 'a) member" where
  "alloc c m = m\<lparr>heap := (heap m)(fresh m := c), fresh := Suc (fresh m)\<rparr>"

text \<open>
  \<^verbatim>\<open>add_node\<close>. \<^verbatim>\<open>copy.copy\<close> makes a shallow copy: a new object whose attributes are bound
  to what the attributes of the original are bound to, so the record of bindings is
  stored at a new address. An attribute bound to an array is bound to the same array in
  the copy (the binding is the address of the array); the array is not copied.
  \<^verbatim>\<open>copy.copy(None)\<close> is \<^verbatim>\<open>None\<close>. The index \<^verbatim>\<open>idx\<close> is at most the number of keys minus one, so
  \<^verbatim>\<open>keys_orig[idx]\<close> is always in range when \<^verbatim>\<open>idx >= 0\<close>.
\<close>

definition add_node :: "('k::linorder) \<Rightarrow> ('k, 'a) member \<Rightarrow> error + ('k, 'a) member" where
  "add_node s_new m =
     (if s_new \<in> set (keys m) then Inr m
      else
        let idx = int (bisect_left s_new (sections m)) - 1 in
        if idx < 0 then Inl (ValueError Node_before_start)
        else
          (case snd (sections m ! nat idx) of
             None \<Rightarrow> Inr (m\<lparr>sections := sd_set s_new None (sections m)\<rparr>)
           | Some r \<Rightarrow>
               let m' = alloc (heap m r) m in
               Inr (m'\<lparr>sections := sd_set s_new (Some (fresh m)) (sections m')\<rparr>)))"

text \<open>
  \<^verbatim>\<open>insert_section\<close>. \<^verbatim>\<open>keys_orig\<close> is a live view of the keys, so \<^verbatim>\<open>keys_orig[idx0]\<close> is read
  from the dictionary as it is after \<^verbatim>\<open>add_node(s1)\<close>; an index past the end raises
  \<^verbatim>\<open>IndexError\<close>. The argument \<^verbatim>\<open>cross_section0\<close> is a reference to an object the caller
  has built.
\<close>

definition insert_section ::
  "('k::linorder) \<Rightarrow> 'k \<Rightarrow> ref \<Rightarrow> ('k, 'a) member \<Rightarrow> error + ('k, 'a) member" where
  "insert_section s0 s1 cross_section0 m =
     (let idx0 = bisect_left s0 (sections m);
          idx1 = bisect_left s1 (sections m)
      in case add_node s1 m of
           Inl e \<Rightarrow> Inl e
         | Inr m1 \<Rightarrow>
             if idx0 \<noteq> idx1 then
               (if idx0 < length (sections m1) then
                  let m2 = m1\<lparr>sections :=
                             sd_set (fst (sections m1 ! idx0)) (Some cross_section0) (sections m1)\<rparr>
                  in Inr (m2\<lparr>sections := sd_set s0 (Some cross_section0) (sections m2)\<rparr>)
                else Inl IndexError)
             else Inr (m1\<lparr>sections := sd_set s0 (Some cross_section0) (sections m1)\<rparr>))"

text \<open>\<^verbatim>\<open>add_section\<close>.\<close>

definition add_section :: "('k::linorder) \<Rightarrow> 'k \<Rightarrow> ref \<Rightarrow> ('k, 'a) member \<Rightarrow> ('k, 'a) member" where
  "add_section s0 s1 cross_section0 m =
     m\<lparr>sections := sd_set s1 None (sd_set s0 (Some cross_section0) (sections m))\<rparr>"

text \<open>The keys of a \<^verbatim>\<open>SortedDict\<close> are strictly increasing.\<close>

definition sorted_keys :: "('k::linorder, 'a) member \<Rightarrow> bool" where
  "sorted_keys m = sorted_wrt (<) (keys m)"

text \<open>
  Assignment to attributes of the object at address \<open>r\<close> (\<^verbatim>\<open>self.t = ...\<close>), as
  \<^verbatim>\<open>self.sections[s].make_ghost()\<close> and \<^verbatim>\<open>self.sections[s].make_float()\<close> do: the attributes of
  that object are bound anew.
\<close>

definition update_object ::
  "ref \<Rightarrow> ('a cross_section \<Rightarrow> 'a cross_section) \<Rightarrow> ('k, 'a) member \<Rightarrow> ('k, 'a) member" where
  "update_object r f m = m\<lparr>heap := (heap m)(r := f (heap m r))\<rparr>"

text \<open>
  What an attribute is bound to: a number (a Python float or a numpy scalar, which are
  immutable), or a numpy array, which is an object of its own and is given by its address
  in a store of arrays. The arrays bound to attributes have one entry: in
  \<^verbatim>\<open>add_main_sections\<close> the area \<^verbatim>\<open>A = itube.Area + A_stiff\<close> is such an array, and the density
  becomes one when \<^verbatim>\<open>self.sections[s].rho += m_ballast[k] / self.sections[s].A / H\<close> adds an
  array to it. The store of arrays maps an address to that entry.
\<close>

datatype 'v attr = Num 'v | Arr nat

type_synonym 'v arrays = "nat \<Rightarrow> 'v"

text \<open>
  \<^verbatim>\<open>make_float(x)\<close>: \<^verbatim>\<open>float(x[0]) if type(x) in [np.ndarray, list] else float(x)\<close>, the number
  an attribute stands for.
\<close>

definition make_float :: "'v arrays \<Rightarrow> 'v attr \<Rightarrow> 'v" where
  "make_float arrs x = (case x of Num v \<Rightarrow> v | Arr p \<Rightarrow> arrs p)"

text \<open>
  \<^verbatim>\<open>self.sections[s].rho += x\<close> for a number \<open>x\<close> and the object at address \<open>r\<close>. Python
  evaluates \<^verbatim>\<open>rho.__iadd__(x)\<close> where it exists and binds the attribute to the result: an
  array adds \<open>x\<close> to its entries in place and the attribute stays bound to that array; a
  number has no in-place addition, so the attribute is bound to the new number
  \<^verbatim>\<open>rho + x\<close>. The state is the registry together with the store of arrays.
\<close>

definition iadd_rho ::
  "ref \<Rightarrow> ('v::plus) \<Rightarrow> ('k, 'v attr) member \<times> 'v arrays \<Rightarrow> ('k, 'v attr) member \<times> 'v arrays"
  where
  "iadd_rho r x st =
     (case sec_rho (heap (fst st) r) of
        Num v \<Rightarrow> (update_object r (\<lambda>c. c\<lparr>sec_rho := Num (v + x)\<rparr>) (fst st), snd st)
      | Arr p \<Rightarrow> (fst st, (snd st)(p := snd st p + x)))"

text \<open>The density read from the object at address \<open>r\<close>: \<^verbatim>\<open>make_float(self.sections[s].rho)\<close>.\<close>

definition read_rho :: "ref \<Rightarrow> ('k, 'v attr) member \<times> 'v arrays \<Rightarrow> 'v" where
  "read_rho r st = make_float (snd st) (sec_rho (heap (fst st) r))"

text \<open>Every reference stored in the registry is the address of an allocated object.\<close>

definition refs_allocated :: "('k, 'a) member \<Rightarrow> bool" where
  "refs_allocated m = (\<forall>kv \<in> set (sections m). \<forall>r. snd kv = Some r \<longrightarrow> r < fresh m)"

text \<open>
  \<^verbatim>\<open>self.sections = SortedDict()\<close> at the start of \<^verbatim>\<open>MemberComplex.compute\<close>; \<open>h\<close> is the
  content of the unallocated store.
\<close>

definition new_member :: "(ref \<Rightarrow> 'a cross_section) \<Rightarrow> ('k, 'a) member" where
  "new_member h = \<lparr>sections = [], heap = h, fresh = 0\<rparr>"

text \<open>
  The loop of \<^verbatim>\<open>add_main_sections\<close> that builds the main-shell partition:
  \<^verbatim>\<open>for k in range(len(s_full) - 1): iprop = ...; self.add_section(s_full[k], s_full[k + 1], iprop)\<close>.
  The property values of the \<open>k\<close>-th object are computed by \<^verbatim>\<open>cs.Tube\<close> or \<^verbatim>\<open>cs.Rectangle\<close>,
  which are not part of the modelled file; they are the list \<open>iprops\<close>, one element for
  each interval.
\<close>

fun add_main_loop ::
  "('k::linorder) list \<Rightarrow> 'a cross_section list \<Rightarrow> ('k, 'a) member \<Rightarrow> ('k, 'a) member" where
  "add_main_loop (sa # sb # ss) (p # ps) m =
     add_main_loop (sb # ss) ps (add_section sa sb (fresh m) (alloc p m))"
| "add_main_loop ss ps m = m"

text \<open>
  The registry invariant: the keys are strictly increasing, the greatest key holds \<^verbatim>\<open>None\<close>
  and every other key holds a cross-section object.
\<close>

definition registry_inv :: "('k::linorder, 'a) member \<Rightarrow> bool" where
  "registry_inv m =
     (sections m \<noteq> [] \<and> sorted_wrt (<) (keys m) \<and> snd (last (sections m)) = None \<and>
      (\<forall>kv \<in> set (butlast (sections m)). snd kv \<noteq> None))"

section \<open>Example registries\<close>

definition steel :: "rat cross_section" where
  "steel = \<lparr>sec_t = 1 / 20, sec_A = 3 / 4, sec_Asx = 3 / 8, sec_Asy = 3 / 8, sec_Ixx = 2,
            sec_Iyy = 2, sec_J0 = 4, sec_E = 200, sec_G = 80, sec_rho = 7800, sec_TorsC = 1,
            sec_sigy = 345, sec_dims = Circ 5\<rparr>"

text \<open>A member with one main section on \<open>[0, 1)\<close>.\<close>

definition reg1 :: "(rat, rat) member" where
  "reg1 = \<lparr>sections = [(0, Some 0), (1, None)], heap = (\<lambda>r. steel), fresh = 1\<rparr>"

text \<open>The registry \<open>reg1\<close> after \<^verbatim>\<open>add_node(1.5)\<close>.\<close>

definition reg1_beyond :: "(rat, rat) member" where
  "reg1_beyond =
     \<lparr>sections = [(0, Some 0), (1, None), (3 / 2, None)], heap = (\<lambda>r. steel), fresh = 1\<rparr>"

text \<open>The registry \<open>reg1\<close> after \<^verbatim>\<open>add_node(0.5)\<close>.\<close>

definition reg1_half :: "(rat, rat) member" where
  "reg1_half =
     \<lparr>sections = [(0, Some 0), (1 / 2, Some 1), (1, None)],
      heap = (\<lambda>r. steel)(1 := steel), fresh = 2\<rparr>"

text \<open>
  The same member with the attribute bindings of a run: after \<^verbatim>\<open>add_main_sections\<close> the area
  is bound to an array (at address 1 of the store of arrays) and the other attributes to
  numbers; after the ballast has been added, the density is bound to an array as well (at
  address 0). Then the registries after \<^verbatim>\<open>add_node(0.5)\<close>.
\<close>

definition steel_main :: "rat attr cross_section" where
  "steel_main = \<lparr>sec_t = Num (1 / 20), sec_A = Arr 1, sec_Asx = Num (3 / 8),
                 sec_Asy = Num (3 / 8), sec_Ixx = Num 2, sec_Iyy = Num 2, sec_J0 = Num 4,
                 sec_E = Num 200, sec_G = Num 80, sec_rho = Num 7800, sec_TorsC = Num 1,
                 sec_sigy = Num 345, sec_dims = Circ (Num 5)\<rparr>"

definition steel_ballasted :: "rat attr cross_section" where
  "steel_ballasted = steel_main\<lparr>sec_rho := Arr 0\<rparr>"

definition arrays0 :: "rat arrays" where
  "arrays0 = (\<lambda>p. 0)(0 := 8000, 1 := 3 / 4)"

definition reg_main :: "(rat, rat attr) member" where
  "reg_main = \<lparr>sections = [(0, Some 0), (1, None)], heap = (\<lambda>r. steel_main), fresh = 1\<rparr>"

definition reg_ballasted :: "(rat, rat attr) member" where
  "reg_ballasted =
     \<lparr>sections = [(0, Some 0), (1, None)], heap = (\<lambda>r. steel_ballasted), fresh = 1\<rparr>"

definition reg_main_half :: "(rat, rat attr) member" where
  "reg_main_half =
     \<lparr>sections = [(0, Some 0), (1 / 2, Some 1), (1, None)],
      heap = (\<lambda>r. steel_main)(1 := steel_main), fresh = 2\<rparr>"

definition reg_ballasted_half :: "(rat, rat attr) member" where
  "reg_ballasted_half =
     \<lparr>sections = [(0, Some 0), (1 / 2, Some 1), (1, None)],
      heap = (\<lambda>r. steel_ballasted)(1 := steel_ballasted), fresh = 2\<rparr>"

text \<open>
  A bulkhead object, the registry \<open>reg1\<close> after the caller has built it (at address 1), and
  the registry after \<^verbatim>\<open>insert_section(0.25, 0.5, iprop)\<close> with that object.
\<close>

definition bulkhead :: "rat cross_section" where
  "bulkhead = steel\<lparr>sec_t := 5 / 2, sec_A := 20\<rparr>"

definition reg1_alloc :: "(rat, rat) member" where
  "reg1_alloc = alloc bulkhead reg1"

definition reg1_bulkhead :: "(rat, rat) member" where
  "reg1_bulkhead =
     \<lparr>sections = [(0, Some 0), (1 / 4, Some 1), (1 / 2, Some 2), (1, None)],
      heap = (\<lambda>r. steel)(1 := bulkhead, 2 := steel), fresh = 3\<rparr>"

text \<open>
  The registry \<open>reg1_alloc\<close> after \<^verbatim>\<open>insert_section(1.0, 1.0, iprop)\<close>: a bulkhead of
  thickness zero at the upper end.
\<close>

definition reg1_top :: "(rat, rat) member" where
  "reg1_top =
     \<lparr>sections = [(0, Some 0), (1, Some 1)], heap = (\<lambda>r. steel)(1 := bulkhead), fresh = 2\<rparr>"

text \<open>
  A member with three main sections on \<open>[0, 0.3)\<close>, \<open>[0.3, 0.6)\<close> and \<open>[0.6, 1)\<close>, whose
  objects (addresses 0, 1, 2) differ in wall thickness, and a bulkhead object the caller
  has built at address 3; then the registry after \<^verbatim>\<open>insert_section(0.2, 0.8, iprop)\<close> with
  that object.
\<close>

definition reg3 :: "(rat, rat) member" where
  "reg3 =
     \<lparr>sections = [(0, Some 0), (3 / 10, Some 1), (3 / 5, Some 2), (1, None)],
      heap = (\<lambda>r. steel)(1 := steel\<lparr>sec_t := 3 / 50\<rparr>, 2 := steel\<lparr>sec_t := 7 / 100\<rparr>,
                          3 := bulkhead),
      fresh = 4\<rparr>"

definition reg3_after :: "(rat, rat) member" where
  "reg3_after =
     \<lparr>sections = [(0, Some 0), (1 / 5, Some 3), (3 / 10, Some 3), (3 / 5, Some 2),
                  (4 / 5, Some 4), (1, None)],
      heap = (\<lambda>r. steel)(1 := steel\<lparr>sec_t := 3 / 50\<rparr>, 2 := steel\<lparr>sec_t := 7 / 100\<rparr>,
                          3 := bulkhead, 4 := steel\<lparr>sec_t := 7 / 100\<rparr>),
      fresh = 5\<rparr>"

text \<open>
  The registry \<open>reg3\<close> after \<^verbatim>\<open>insert_section(0.8, 0.3, iprop)\<close>, the two positions in the wrong
  order.
\<close>

definition reg3_swapped :: "(rat, rat) member" where
  "reg3_swapped =
     \<lparr>sections = [(0, Some 0), (3 / 10, Some 1), (3 / 5, Some 2), (4 / 5, Some 3), (1, Some 3)],
      heap = (\<lambda>r. steel)(1 := steel\<lparr>sec_t := 3 / 50\<rparr>, 2 := steel\<lparr>sec_t := 7 / 100\<rparr>,
                          3 := bulkhead),
      fresh = 4\<rparr>"

section \<open>Grid refinement\<close>

text \<open>
  \<^verbatim>\<open>np.linspace(start, stop, num)\<close> with the default \<^verbatim>\<open>endpoint=True\<close>, in exact arithmetic:
  \<^verbatim>\<open>num\<close> samples \<^verbatim>\<open>start + i * step\<close> with \<^verbatim>\<open>step = (stop - start) / (num - 1)\<close>, the last
  one overwritten by \<^verbatim>\<open>stop\<close> when \<^verbatim>\<open>num > 1\<close>. The number of samples is a natural number
  here; numpy raises for a negative one.
\<close>

definition linspace :: "('a::linordered_field) \<Rightarrow> 'a \<Rightarrow> nat \<Rightarrow> 'a list" where
  "linspace start stop num =
     (if num = 0 then []
      else if num = 1 then [start]
      else map (\<lambda>i. start + of_nat i * ((stop - start) / of_nat (num - 1))) [0..<num - 1]
           @ [stop])"

text \<open>
  The loop of \<^verbatim>\<open>MemberDiscretization.compute\<close>:
  \<^verbatim>\<open>for k in range(s_param.size - 1): s_full = np.append(s_full, np.linspace(s_param[k], s_param[k + 1], n_refine + 1))\<close>.
\<close>

fun refine_loop :: "('a::linordered_field) list \<Rightarrow> nat \<Rightarrow> 'a list" where
  "refine_loop (a # b # rest) n_refine =
     linspace a b (n_refine + 1) @ refine_loop (b # rest) n_refine"
| "refine_loop s_param n_refine = []"

text \<open>\<^verbatim>\<open>np.unique\<close>: sort, then drop every element equal to its predecessor.\<close>

definition np_unique :: "('a::linorder) list \<Rightarrow> 'a list" where
  "np_unique xs = remdups_adj (sort xs)"

text \<open>
  The refined grid \<^verbatim>\<open>s_full = np.unique(s_full)\<close>. It is stored in the output \<^verbatim>\<open>s_full\<close>, which
  is declared with \<^verbatim>\<open>get_nfull(n_height, nref=n_refine)\<close> entries; the control-point grid of a
  member runs from \<open>0\<close> to \<open>1\<close> and has at least two points.
\<close>

definition refine_grid :: "('a::linordered_field) list \<Rightarrow> nat \<Rightarrow> 'a list" where
  "refine_grid s_param n_refine = np_unique (refine_loop s_param n_refine)"

text \<open>\<^verbatim>\<open>get_nfull\<close>: \<^verbatim>\<open>int(1 + nref * (npts - 1))\<close> on Python integers.\<close>

definition get_nfull :: "int \<Rightarrow> int \<Rightarrow> int" where
  "get_nfull npts nref = 1 + nref * (npts - 1)"

text \<open>
  What the specification asks of the refined grid, written out: every interval
  \<open>[a, b]\<close> of the control points contributes the \<open>n\<close> positions \<open>a + j * (b - a) / n\<close>,
  \<open>j < n\<close>, and the last control point closes the grid.
\<close>

fun equal_subdivision :: "('a::linordered_field) list \<Rightarrow> nat \<Rightarrow> 'a list" where
  "equal_subdivision [] n = []"
| "equal_subdivision [a] n = [a]"
| "equal_subdivision (a # b # rest) n =
     map (\<lambda>j. a + of_nat j * ((b - a) / of_nat n)) [0..<n] @ equal_subdivision (b # rest) n"

section \<open>The geometry checks of the discretization stage\<close>










text \<open>\<^verbatim>\<open>np.diff\<close>.\<close>

definition np_diff :: "real list \<Rightarrow> real list" where
  "np_diff xs = map2 (-) (tl xs) xs"









section \<open>The layout of the ring stiffeners\<close>

text \<open>
  \<^verbatim>\<open>add_ring_stiffener_sections\<close> up to the flange intervals \<^verbatim>\<open>s0\<close>, \<^verbatim>\<open>s1\<close> it passes to
  \<^verbatim>\<open>insert_section\<close>. Numbers are reals (exact arithmetic). \<open>L\<close> is the member height
  \<^verbatim>\<open>inputs["height"]\<close>, which is positive for every member that has passed the discretization
  checks; the quotient \<^verbatim>\<open>w_flange / L\<close> is modelled for \<open>L \<noteq> 0\<close> only.

  The deconfliction loop \<^verbatim>\<open>while np.any(np.abs(s_bulk - s) <= tol) and s > tol: s -= tol\<close>
  need not terminate (for \<open>tol = 0\<close> and a candidate on a bulkhead it does not): it is a
  partial function, \<open>None\<close> standing for a loop that runs forever.
\<close>

partial_function (option) nudge :: "real \<Rightarrow> real list \<Rightarrow> real \<Rightarrow> real option" where
  "nudge tol s_bulk s =
     (if list_ex (\<lambda>b. \<bar>b - s\<bar> \<le> tol) s_bulk \<and> s > tol
      then nudge tol s_bulk (s - tol)
      else Some s)"

declare nudge.simps [code]

text \<open>\<^verbatim>\<open>n_stiff = 0 if L_stiffener == 0.0 else int(np.floor(1 / L_stiffener))\<close>.\<close>

definition n_stiff_of :: "real \<Rightarrow> int" where
  "n_stiff_of L_stiffener = (if L_stiffener = 0 then 0 else \<lfloor>1 / L_stiffener\<rfloor>)"

text \<open>
  The candidate positions \<^verbatim>\<open>(np.arange(1, n_stiff + 0.1) - 0.5) * L_stiffener\<close>, those in the
  ghost regions removed.
\<close>

definition stiffener_candidates :: "real \<Rightarrow> real \<Rightarrow> real \<Rightarrow> real list" where
  "stiffener_candidates L_stiffener s_ghost1 s_ghost2 =
     filter (\<lambda>s. s < s_ghost2)
       (filter (\<lambda>s. s > s_ghost1)
          (map (\<lambda>i. (of_int i - 1 / 2) * L_stiffener) [1..n_stiff_of L_stiffener]))"

text \<open>
  The result: \<open>Returned\<close> for the early \<^verbatim>\<open>return\<close> when there are no stiffeners, otherwise the
  positions \<^verbatim>\<open>s_stiff\<close> and the interval ends \<^verbatim>\<open>s0\<close>, \<^verbatim>\<open>s1\<close>.
\<close>

datatype layout = Returned | Layout "real list" "real list" "real list"

text \<open>
  The clipping of the first and of the last interval. \<^verbatim>\<open>s0[0]\<close> on an empty array raises
  \<^verbatim>\<open>IndexError\<close>.
\<close>

definition clip_intervals :: "real \<Rightarrow> real list \<Rightarrow> real list \<Rightarrow> error + real list \<times> real list" where
  "clip_intervals tol s0 s1 =
     (if s0 = [] then Inl IndexError
      else
        let (s0a, s1a) = (if s0 ! 0 < 0 then (s0[0 := 0], s1[0 := tol]) else (s0, s1));
            n = length s1a
        in if last s1a > 1 then Inr (s0a[n - 1 := 1 - tol], s1a[n - 1 := 1])
           else Inr (s0a, s1a))"

definition ring_stiffener_layout ::
  "real \<Rightarrow> real \<Rightarrow> real \<Rightarrow> real list \<Rightarrow> real \<Rightarrow> real \<Rightarrow> (error + layout) option" where
  "ring_stiffener_layout L_stiffener w_flange L s_bulk s_ghost1 s_ghost2 =
     (if n_stiff_of L_stiffener = 0 then Some (Inr Returned)
      else
        let tol = w_flange / L in
        case those (map (nudge tol s_bulk) (stiffener_candidates L_stiffener s_ghost1 s_ghost2)) of
          None \<Rightarrow> None
        | Some s_stiff \<Rightarrow>
            let s0 = map (\<lambda>s. s - (1 / 2) * w_flange / L) s_stiff;
                s1 = map (\<lambda>s. s + (1 / 2) * w_flange / L) s_stiff
            in case clip_intervals tol s0 s1 of
                 Inl e \<Rightarrow> Some (Inl e)
               | Inr (s0', s1') \<Rightarrow> Some (Inr (Layout s_stiff s0' s1')))"

section \<open>Ballast\<close>

text \<open>
  numpy does not raise on a division by zero: the quotient of two float64 values with a
  zero divisor is \<^verbatim>\<open>inf\<close>, \<^verbatim>\<open>-inf\<close> or \<^verbatim>\<open>nan\<close> (with a warning). Values that come out of such
  divisions are modelled by the type \<open>fval\<close>: a real number or one of the three special
  values. Finite arithmetic is exact (rounding is not modelled) and zero has no sign (a
  zero divisor counts as \<^verbatim>\<open>+0.0\<close>).
\<close>

datatype fval = Fin real | PInf | NInf | NaN

definition np_div :: "real \<Rightarrow> real \<Rightarrow> fval" where
  "np_div x y =
     (if y \<noteq> 0 then Fin (x / y) else if x > 0 then PInf else if x < 0 then NInf else NaN)"

fun fdiv :: "fval \<Rightarrow> fval \<Rightarrow> fval" where
  "fdiv (Fin x) (Fin y) = np_div x y"
| "fdiv (Fin x) PInf = Fin 0"
| "fdiv (Fin x) NInf = Fin 0"
| "fdiv PInf (Fin y) = (if y \<ge> 0 then PInf else NInf)"
| "fdiv NInf (Fin y) = (if y \<ge> 0 then NInf else PInf)"
| "fdiv x y = NaN"

fun fadd :: "fval \<Rightarrow> fval \<Rightarrow> fval" where
  "fadd (Fin x) (Fin y) = Fin (x + y)"
| "fadd NaN y = NaN"
| "fadd x NaN = NaN"
| "fadd PInf NInf = NaN"
| "fadd NInf PInf = NaN"
| "fadd PInf y = PInf"
| "fadd x PInf = PInf"
| "fadd NInf y = NInf"
| "fadd x NInf = NInf"

text \<open>The comparison \<^verbatim>\<open>x > 1\<close> on such a value.\<close>

fun exceeds_one :: "fval \<Rightarrow> bool" where
  "exceeds_one (Fin x) = (1 < x)"
| "exceeds_one PInf = True"
| "exceeds_one NInf = False"
| "exceeds_one NaN = False"

text \<open>
  Modelled from the spec: \<^verbatim>\<open>frustum.frustumVol(rb, rt, h)\<close>, of the module
  \<^verbatim>\<open>wisdem.commonse.frustum\<close>, which is not among the source files. The specification has the
  available cavity volume integrated "via frustum formulas": the volume of the solid
  frustum of a cone with end radii \<open>rb\<close>, \<open>rt\<close> and height \<open>h\<close>.
\<close>

definition frustumVol :: "real \<Rightarrow> real \<Rightarrow> real \<Rightarrow> real" where
  "frustumVol rb rt h = pi * (h / 3) * (rb * rb + rt * rt + rb * rt)"

text \<open>
  The geometry of the member as the ballast code reads it: \<^verbatim>\<open>np.interp(s, s_full, z_full)\<close>,
  \<^verbatim>\<open>np.interp(s, s_full, R_od)\<close> and \<^verbatim>\<open>util.sectionalInterp(s, s_full, twall)\<close> as functions of
  the position \<open>s\<close> (the interpolation routines are numpy's and a helper that is not
  among the source files).
\<close>

record geom =
  z_at :: "real \<Rightarrow> real"
  R_od_at :: "real \<Rightarrow> real"
  twall_at :: "real \<Rightarrow> real"

text \<open>
  The inputs of \<^verbatim>\<open>add_circular_ballast_sections\<close>: one row of \<^verbatim>\<open>ballast_grid\<close>, one density
  and one volume for each of the \<^verbatim>\<open>n_ball\<close> segments, and the two ghost positions.
\<close>

record ballast_inputs =
  ballast_grid :: "(real \<times> real) list"
  ballast_density :: "real list"
  ballast_volume :: "real list"
  ballast_s_ghost1 :: real
  ballast_s_ghost2 :: real

text \<open>
  "Move away from ghost regions": \<^verbatim>\<open>s_ballast += s_ghost1\<close> and
  \<^verbatim>\<open>s_ballast = np.minimum(s_ballast, s_ghost2)\<close>.
\<close>

definition s_ballast_of :: "ballast_inputs \<Rightarrow> (real \<times> real) list" where
  "s_ballast_of inp =
     map (\<lambda>(a, b). (min (a + ballast_s_ghost1 inp) (ballast_s_ghost2 inp),
                     min (b + ballast_s_ghost1 inp) (ballast_s_ghost2 inp)))
       (ballast_grid inp)"

text \<open>
  The volumes \<^verbatim>\<open>V_pts\<close> of the nine frusta between the ten points of a segment:
  \<^verbatim>\<open>frustum.frustumVol(R_id_pts[:-1], R_id_pts[1:], np.diff(zpts))\<close>.
\<close>

definition cavity_volumes :: "geom \<Rightarrow> real \<Rightarrow> real \<Rightarrow> real list" where
  "cavity_volumes g sa sb =
     (let sinterp = linspace sa sb 10;
          zpts = map (z_at g) sinterp;
          R_id_pts = map (\<lambda>s. R_od_at g s - twall_at g s) sinterp
      in map (\<lambda>((rb, rt), h). frustumVol rb rt h)
           (zip (zip (butlast R_id_pts) (tl R_id_pts)) (np_diff zpts)))"

text \<open>
  "Augment density for these sections":
  \<^verbatim>\<open>for s in self.sections: if s >= s_ballast[k, 0] and s < s_ballast[k, 1]: self.sections[s].rho += m_ballast[k] / self.sections[s].A / H\<close>.
  An attribute of \<^verbatim>\<open>None\<close> raises \<^verbatim>\<open>AttributeError\<close>.
\<close>

fun augment_density ::
  "(real \<times> ref option) list \<Rightarrow> real \<Rightarrow> real \<Rightarrow> real \<Rightarrow> real \<Rightarrow>
   (ref \<Rightarrow> fval cross_section) \<Rightarrow> error + (ref \<Rightarrow> fval cross_section)" where
  "augment_density [] sa sb mb H h = Inr h"
| "augment_density ((s, v) # kvs) sa sb mb H h =
     (if s \<ge> sa \<and> s < sb then
        (case v of
           None \<Rightarrow> Inl AttributeError
         | Some r \<Rightarrow>
             augment_density kvs sa sb mb H
               (h(r := (h r)\<lparr>sec_rho :=
                    fadd (sec_rho (h r)) (fdiv (fdiv (Fin mb) (sec_A (h r))) (Fin H))\<rparr>)))
      else augment_density kvs sa sb mb H h)"

text \<open>
  The loop over the segments. It returns the registry and the list \<^verbatim>\<open>V_avail\<close>. The other
  quantities the loop computes (the fill height, the centre of gravity and the inertia of
  a permanent ballast, the capacity curve of a variable ballast) are array arithmetic
  that raises nothing and that \<^verbatim>\<open>V_avail\<close> and the registry do not depend on; they are left
  out.
\<close>

fun ballast_loop ::
  "geom \<Rightarrow> ((real \<times> real) \<times> real) list \<Rightarrow> (real, fval) member \<Rightarrow>
   error + (real, fval) member \<times> real list" where
  "ballast_loop g [] m = Inr (m, [])"
| "ballast_loop g (((sa, sb), mb) # rest) m =
     (let zpts = map (z_at g) (linspace sa sb 10);
          H = last zpts - hd zpts;
          V_pts = cavity_volumes g sa sb
      in case augment_density (sections m) sa sb mb H (heap m) of
           Inl e \<Rightarrow> Inl e
         | Inr h' \<Rightarrow>
             (case ballast_loop g rest (m\<lparr>heap := h'\<rparr>) of
                Inl e \<Rightarrow> Inl e
              | Inr (m', V_avail) \<Rightarrow> Inr (m', sum_list V_pts # V_avail)))"

text \<open>
  \<^verbatim>\<open>add_circular_ballast_sections\<close>: the registry after the density augmentation and the
  output \<^verbatim>\<open>constr_ballast_capacity = V_ballast / V_avail\<close>. The three input arrays have the
  declared length \<^verbatim>\<open>n_ball\<close>.
\<close>

definition add_circular_ballast_sections ::
  "geom \<Rightarrow> ballast_inputs \<Rightarrow> (real, fval) member \<Rightarrow> error + (real, fval) member \<times> fval list" where
  "add_circular_ballast_sections g inp m =
     (if ballast_volume inp = [] then Inr (m, [])
      else
        let m_ballast = map2 (*) (ballast_density inp) (ballast_volume inp) in
        case ballast_loop g (zip (s_ballast_of inp) m_ballast) m of
          Inl e \<Rightarrow> Inl e
        | Inr (m', V_avail) \<Rightarrow> Inr (m', map2 np_div (ballast_volume inp) V_avail))"

text \<open>
  Example: a cylinder of height 10, outer radius 5/2 and wall thickness 1/20, with one
  main section.
\<close>

definition cylinder :: geom where
  "cylinder = \<lparr>z_at = (\<lambda>s. 10 * s), R_od_at = (\<lambda>s. 5 / 2), twall_at = (\<lambda>s. 1 / 20)\<rparr>"

definition shell :: "fval cross_section" where
  "shell = \<lparr>sec_t = Fin (1 / 20), sec_A = Fin (3 / 4), sec_Asx = Fin (3 / 8),
            sec_Asy = Fin (3 / 8), sec_Ixx = Fin 2, sec_Iyy = Fin 2, sec_J0 = Fin 4,
            sec_E = Fin 200, sec_G = Fin 80, sec_rho = Fin 7800, sec_TorsC = Fin 1,
            sec_sigy = Fin 345, sec_dims = Circ (Fin 5)\<rparr>"

definition column :: "(real, fval) member" where
  "column = \<lparr>sections = [(0, Some 0), (1, None)], heap = (\<lambda>r. shell), fresh = 1\<rparr>"

text \<open>
  A permanent ballast of 1 cubic metre asked for on \<open>[0.8, 0.9]\<close> of a member whose upper
  ghost region starts at \<open>0.7\<close>, and a permanent ballast of 1000 cubic metres asked for on
  \<open>[0, 0.1]\<close>.
\<close>

definition ballast_in_ghost :: ballast_inputs where
  "ballast_in_ghost =
     \<lparr>ballast_grid = [(4 / 5, 9 / 10)], ballast_density = [1025], ballast_volume = [1],
      ballast_s_ghost1 = 0, ballast_s_ghost2 = 7 / 10\<rparr>"

definition ballast_too_much :: ballast_inputs where
  "ballast_too_much =
     \<lparr>ballast_grid = [(0, 1 / 10)], ballast_density = [1025], ballast_volume = [1000],
      ballast_s_ghost1 = 0, ballast_s_ghost2 = 1\<rparr>"

section \<open>Facts about the sorted dictionary\<close>

lemma set_sd_set: "fst ` set (sd_set s v kvs) = insert s (fst ` set kvs)"
proof (induction kvs)
  case Nil
  then show ?case by simp
next
  case (Cons kv kvs)
  obtain k w where kv: "kv = (k, w)" by (cases kv)
  show ?case using Cons.IH by (simp add: kv insert_commute)
qed

lemma keys_sd_set: "set (map fst (sd_set s v kvs)) = insert s (set (map fst kvs))"
  using set_sd_set [of s v kvs] by simp

lemma sd_set_sorted:
  "sorted_wrt (<) (map fst kvs) \<Longrightarrow> sorted_wrt (<) (map fst (sd_set s v kvs))"
proof (induction kvs)
  case Nil
  then show ?case by simp
next
  case (Cons kv kvs)
  obtain k w where kv: "kv = (k, w)" by (cases kv)
  have "\<forall>x \<in> fst ` set (sd_set s v kvs). k < x" if "k < s"
    using that Cons.prems kv by (auto simp: set_sd_set)
  then show ?case using Cons kv by auto
qed

lemma bisect_left_pos:
  assumes "sorted_wrt (<) (map fst kvs)" and "k \<in> fst ` set kvs" and "k < s"
  shows "0 < bisect_left s kvs"
proof (cases kvs)
  case Nil
  then show ?thesis using assms by simp
next
  case (Cons kv rest)
  have "fst kv \<le> k" using assms Cons by auto
  then show ?thesis using assms Cons by (simp add: bisect_left_def)
qed

section \<open>Idempotence of node insertion\<close>

lemma add_node_present: "s \<in> set (keys m) \<Longrightarrow> add_node s m = Inr m"
  by (simp add: add_node_def)

lemma add_node_absent:
  assumes "add_node s m = Inr m'" and "s \<notin> set (keys m)"
  shows "\<exists>v. sections m' = sd_set s v (sections m)"
  using assms
  by (simp add: add_node_def Let_def alloc_def split: if_splits option.splits) fastforce+

lemma add_node_keys:
  assumes "add_node s m = Inr m'"
  shows "set (keys m') = insert s (set (keys m))"
proof (cases "s \<in> set (keys m)")
  case True
  then show ?thesis using assms by (auto simp: add_node_present)
next
  case False
  with assms obtain v where "sections m' = sd_set s v (sections m)"
    using add_node_absent by blast
  then show ?thesis by (simp add: keys_def set_sd_set)
qed

text \<open>
  C2. If some key of the registry is at or below \<open>s\<close>, \<^verbatim>\<open>add_node(s)\<close> succeeds, and calling
  it again on the resulting registry succeeds and returns that registry unchanged (keys,
  references and object store).
\<close>

theorem add_node_idempotent:
  assumes "sorted_keys m" and "\<exists>k \<in> set (keys m). k \<le> s"
  shows "\<exists>m'. add_node s m = Inr m' \<and> add_node s m' = Inr m'"
proof (cases "s \<in> set (keys m)")
  case True
  then show ?thesis by (simp add: add_node_present)
next
  case False
  from assms(2) obtain k where k: "k \<in> set (keys m)" "k \<le> s" by blast
  with False have "k < s" by (cases "k = s") auto
  with assms(1) k have "0 < bisect_left s (sections m)"
    by (intro bisect_left_pos [where k = k]) (auto simp: sorted_keys_def keys_def)
  then have "\<exists>m'. add_node s m = Inr m'"
    using False by (simp add: add_node_def Let_def split: option.splits)
  then obtain m' where m': "add_node s m = Inr m'" ..
  then have "s \<in> set (keys m')" by (simp add: add_node_keys)
  then show ?thesis using m' by (simp add: add_node_present)
qed

theorem add_node_idempotent_witness:
  "sorted_keys reg1 \<and> (\<exists>k \<in> set (keys reg1). k \<le> 1 / 2) \<and>
   (\<exists>m'. add_node (1 / 2) reg1 = Inr m' \<and> add_node (1 / 2) m' = Inr m')"
proof -
  have a: "sorted_keys reg1" by (simp add: sorted_keys_def keys_def reg1_def)
  have b: "\<exists>k \<in> set (keys reg1). k \<le> 1 / 2" by (simp add: keys_def reg1_def)
  show ?thesis using a b add_node_idempotent [OF a b] by blast
qed

section \<open>The ghost transform\<close>

text \<open>
  C6. One application of \<^verbatim>\<open>make_ghost\<close> sets the thickness, the area, both shear areas, both
  bending inertias, the polar inertia, the density and the shape dimensions (\<^verbatim>\<open>D\<close>, or \<^verbatim>\<open>a\<close>
  and \<^verbatim>\<open>b\<close>) to \<open>1 / 100\<close>, and multiplies \<^verbatim>\<open>E\<close>, \<^verbatim>\<open>G\<close> and \<^verbatim>\<open>sigy\<close> by \<open>100\<close>; the
  torsion constant is left as it was.
\<close>

theorem make_ghost_effect:
  "sec_t (make_ghost c) = 1 / 100 \<and>
   sec_A (make_ghost c) = 1 / 100 \<and>
   sec_Asx (make_ghost c) = 1 / 100 \<and>
   sec_Asy (make_ghost c) = 1 / 100 \<and>
   sec_Ixx (make_ghost c) = 1 / 100 \<and>
   sec_Iyy (make_ghost c) = 1 / 100 \<and>
   sec_J0 (make_ghost c) = 1 / 100 \<and>
   sec_rho (make_ghost c) = 1 / 100 \<and>
   sec_E (make_ghost c) = 100 * sec_E c \<and>
   sec_G (make_ghost c) = 100 * sec_G c \<and>
   sec_sigy (make_ghost c) = 100 * sec_sigy c \<and>
   sec_TorsC (make_ghost c) = sec_TorsC c \<and>
   sec_dims (make_ghost c) =
     (case sec_dims c of
        Base \<Rightarrow> Base
      | Circ d \<Rightarrow> Circ (1 / 100)
      | Rect x y \<Rightarrow> Rect (1 / 100) (1 / 100))"
  by (cases "sec_dims c") (simp_all add: make_ghost_def make_ghost_base_def)

section \<open>Range check and copy semantics of node insertion\<close>


lemma map_of_sd_set: "map_of (sd_set s v kvs) = (map_of kvs)(s \<mapsto> v)"
  by (induction kvs) (auto simp: fun_eq_iff)

lemma bisect_left_zero:
  assumes "sorted_wrt (<) (map fst kvs)"
  shows "(s \<notin> fst ` set kvs \<and> bisect_left s kvs = 0) \<longleftrightarrow> (\<forall>k \<in> fst ` set kvs. s < k)"
proof (cases kvs)
  case Nil
  then show ?thesis by (simp add: bisect_left_def)
next
  case (Cons kv rest)
  have le: "\<forall>k \<in> fst ` set kvs. fst kv \<le> k" using assms Cons by auto
  show ?thesis
  proof
    assume a: "s \<notin> fst ` set kvs \<and> bisect_left s kvs = 0"
    then have "\<not> fst kv < s" using Cons by (auto simp: bisect_left_def split: if_splits)
    moreover have "fst kv \<noteq> s" using a Cons by auto
    ultimately have "s < fst kv" by auto
    then show "\<forall>k \<in> fst ` set kvs. s < k" using le by auto
  next
    assume a: "\<forall>k \<in> fst ` set kvs. s < k"
    then have "s < fst kv" using Cons by simp
    then have "bisect_left s kvs = 0" using Cons by (simp add: bisect_left_def)
    moreover have "s \<notin> fst ` set kvs" using a by auto
    ultimately show "s \<notin> fst ` set kvs \<and> bisect_left s kvs = 0" by simp
  qed
qed

lemma bisect_left_pred:
  assumes "sorted_wrt (<) (map fst kvs)" and "(ka, v) \<in> set kvs" and "ka < s"
    and "\<forall>k \<in> fst ` set kvs. k \<le> ka \<or> s < k"
  shows "0 < bisect_left s kvs \<and> kvs ! (bisect_left s kvs - 1) = (ka, v)"
  using assms
proof (induction kvs)
  case Nil
  then show ?case by simp
next
  case (Cons kv rest)
  obtain k w where kv: "kv = (k, w)" by (cases kv)
  have gt: "\<forall>x \<in> fst ` set rest. k < x" using Cons.prems(1) kv by auto
  show ?case
  proof (cases "k = ka")
    case True
    have "(ka, v) \<notin> set rest" using gt True by force
    then have w: "w = v" using Cons.prems(2) kv True by auto
    have "\<forall>x \<in> fst ` set rest. s < x"
    proof
      fix x assume x: "x \<in> fst ` set rest"
      then have "ka < x" using gt True by auto
      moreover have "x \<le> ka \<or> s < x" using Cons.prems(4) x by auto
      ultimately show "s < x" by auto
    qed
    then have "takeWhile (\<lambda>kv. fst kv < s) rest = []"
      by (cases rest) auto
    then show ?thesis using True w kv Cons.prems(3) by (simp add: bisect_left_def)
  next
    case False
    then have mem: "(ka, v) \<in> set rest" using Cons.prems(2) kv by auto
    then have "k < ka" using gt by force
    then have ks: "k < s" using Cons.prems(3) by simp
    have ih: "0 < bisect_left s rest \<and> rest ! (bisect_left s rest - 1) = (ka, v)"
      using Cons.IH [OF _ mem Cons.prems(3)] Cons.prems(1,4) by simp
    have "bisect_left s (kv # rest) = Suc (bisect_left s rest)"
      using ks kv by (simp add: bisect_left_def)
    then show ?thesis using ih by (cases "bisect_left s rest") auto
  qed
qed

lemma add_node_error_iff:
  assumes "sorted_keys m"
  shows "(\<exists>e. add_node s m = Inl e) \<longleftrightarrow> (\<forall>k \<in> set (keys m). s < k)"
proof -
  have "(\<exists>e. add_node s m = Inl e) \<longleftrightarrow> (s \<notin> fst ` set (sections m) \<and> bisect_left s (sections m) = 0)"
    by (auto simp: add_node_def Let_def keys_def split: option.splits)
  also have "\<dots> \<longleftrightarrow> (\<forall>k \<in> fst ` set (sections m). s < k)"
    using bisect_left_zero assms by (simp add: sorted_keys_def keys_def)
  finally show ?thesis by (simp add: keys_def)
qed

lemma add_node_error_kind: "add_node s m = Inl e \<Longrightarrow> e = ValueError Node_before_start"
  by (auto simp: add_node_def Let_def split: if_splits option.splits)

lemma below_all_iff_hd:
  assumes "sorted_keys m" and "sections m \<noteq> []"
  shows "(\<forall>k \<in> set (keys m). s < k) \<longleftrightarrow> s < hd (keys m)"
proof (cases "sections m")
  case Nil
  then show ?thesis using assms by simp
next
  case (Cons kv rest)
  then have "\<forall>k \<in> set (keys m). fst kv \<le> k"
    using assms(1) by (auto simp: sorted_keys_def keys_def)
  then show ?thesis using Cons by (auto simp: keys_def)
qed

lemma add_node_copy:
  assumes "sorted_keys m" and "refs_allocated m"
    and "(ka, Some r0) \<in> set (sections m)" and "ka < s"
    and "\<forall>k \<in> set (keys m). k \<le> ka \<or> s < k"
  shows "add_node s m =
           Inr (m\<lparr>heap := (heap m)(fresh m := heap m r0), fresh := Suc (fresh m),
                  sections := sd_set s (Some (fresh m)) (sections m)\<rparr>) \<and> r0 < fresh m"
proof -
  have notin: "s \<notin> set (keys m)" using assms(4,5) by auto
  have p: "0 < bisect_left s (sections m) \<and>
           sections m ! (bisect_left s (sections m) - 1) = (ka, Some r0)"
    using bisect_left_pred [of "sections m" ka "Some r0" s] assms
    by (simp add: sorted_keys_def keys_def)
  then have "nat (int (bisect_left s (sections m)) - 1) = bisect_left s (sections m) - 1"
    by simp
  then have "add_node s m =
           Inr (m\<lparr>heap := (heap m)(fresh m := heap m r0), fresh := Suc (fresh m),
                  sections := sd_set s (Some (fresh m)) (sections m)\<rparr>)"
    using notin p by (simp add: add_node_def Let_def alloc_def)
  moreover have "r0 < fresh m" using assms(2,3) by (force simp: refs_allocated_def)
  ultimately show ?thesis by simp
qed

text \<open>
  C3, as amended. On a registry with strictly increasing keys whose references are
  allocated, \<^verbatim>\<open>add_node(s)\<close> raises exactly when \<open>s\<close> lies below every key, that is (for a
  non-empty registry) when \<open>s\<close> precedes the first key, and the exception is the
  \<^verbatim>\<open>ValueError\<close> of the range check. When \<open>s\<close> is absent and \<open>ka\<close> is the greatest key below it,
  holding the object at address \<open>r0\<close>, the call succeeds, the new key \<open>s\<close> holds a newly
  allocated object (an address different from \<open>r0\<close>) whose attributes are bound to what
  the attributes of the object at \<open>r0\<close> are bound to (a shallow copy), and the key \<open>ka\<close>
  still holds \<open>r0\<close>. Assigning to attributes of either object leaves the other as it was,
  and so does \<^verbatim>\<open>rho += x\<close> on either object when the density is bound to a number. When the
  density is bound to an array, both objects are bound to that one array, and \<^verbatim>\<open>rho += x\<close>
  on either object is read from both.
\<close>

theorem add_node_range_and_copy:
  fixes m :: "('k::linorder, ('v::plus) attr) member"
  assumes "sorted_keys m" and "refs_allocated m"
  shows "((\<exists>e. add_node s m = Inl e) \<longleftrightarrow> (\<forall>k \<in> set (keys m). s < k)) \<and>
         (sections m \<noteq> [] \<longrightarrow> ((\<exists>e. add_node s m = Inl e) \<longleftrightarrow> s < hd (keys m))) \<and>
         (\<forall>e. add_node s m = Inl e \<longrightarrow> e = ValueError Node_before_start) \<and>
         (\<forall>ka r0. (ka, Some r0) \<in> set (sections m) \<and> ka < s \<and>
                   (\<forall>k \<in> set (keys m). k \<le> ka \<or> s < k) \<longrightarrow>
            (\<exists>m'. add_node s m = Inr m' \<and>
                   map_of (sections m') s = Some (Some (fresh m)) \<and>
                   map_of (sections m') ka = Some (Some r0) \<and>
                   fresh m \<noteq> r0 \<and>
                   heap m' (fresh m) = heap m r0 \<and>
                   heap m' r0 = heap m r0 \<and>
                   (\<forall>f. heap (update_object (fresh m) f m') r0 = heap m r0) \<and>
                   (\<forall>f. heap (update_object r0 f m') (fresh m) = heap m r0) \<and>
                   (\<forall>arrs x v. sec_rho (heap m r0) = Num v \<longrightarrow>
                      read_rho r0 (iadd_rho (fresh m) x (m', arrs)) = v \<and>
                      read_rho (fresh m) (iadd_rho r0 x (m', arrs)) = v) \<and>
                   (\<forall>arrs x p. sec_rho (heap m r0) = Arr p \<longrightarrow>
                      read_rho r0 (iadd_rho (fresh m) x (m', arrs)) = arrs p + x \<and>
                      read_rho (fresh m) (iadd_rho (fresh m) x (m', arrs)) = arrs p + x \<and>
                      read_rho r0 (iadd_rho r0 x (m', arrs)) = arrs p + x \<and>
                      read_rho (fresh m) (iadd_rho r0 x (m', arrs)) = arrs p + x)))"
proof (intro conjI allI impI)
  show "(\<exists>e. add_node s m = Inl e) \<longleftrightarrow> (\<forall>k \<in> set (keys m). s < k)"
    using add_node_error_iff assms(1) by blast
next
  assume "sections m \<noteq> []"
  then show "(\<exists>e. add_node s m = Inl e) \<longleftrightarrow> s < hd (keys m)"
    using add_node_error_iff [OF assms(1)] below_all_iff_hd [OF assms(1)] by blast
next
  fix e assume "add_node s m = Inl e"
  then show "e = ValueError Node_before_start" by (rule add_node_error_kind)
next
  fix ka r0
  assume h: "(ka, Some r0) \<in> set (sections m) \<and> ka < s \<and>
             (\<forall>k \<in> set (keys m). k \<le> ka \<or> s < k)"
  define m' where "m' = m\<lparr>heap := (heap m)(fresh m := heap m r0), fresh := Suc (fresh m),
                  sections := sd_set s (Some (fresh m)) (sections m)\<rparr>"
  have c: "add_node s m = Inr m'" "r0 < fresh m"
    using add_node_copy [OF assms, of ka r0 s] h by (simp_all add: m'_def)
  have d: "distinct (map fst (sections m))"
    using assms(1) by (simp add: sorted_keys_def keys_def strict_sorted_iff)
  have "map_of (sections m) ka = Some (Some r0)"
    using h d by simp
  moreover have "ka \<noteq> s" using h by auto
  ultimately have ka: "map_of (sections m') ka = Some (Some r0)"
    by (simp add: m'_def map_of_sd_set)
  have hp: "heap m' (fresh m) = heap m r0" "heap m' r0 = heap m r0"
    using c(2) by (simp_all add: m'_def)
  have ne: "fresh m \<noteq> r0" "r0 \<noteq> fresh m" using c(2) by simp_all
  show "\<exists>m'. add_node s m = Inr m' \<and>
                   map_of (sections m') s = Some (Some (fresh m)) \<and>
                   map_of (sections m') ka = Some (Some r0) \<and>
                   fresh m \<noteq> r0 \<and>
                   heap m' (fresh m) = heap m r0 \<and>
                   heap m' r0 = heap m r0 \<and>
                   (\<forall>f. heap (update_object (fresh m) f m') r0 = heap m r0) \<and>
                   (\<forall>f. heap (update_object r0 f m') (fresh m) = heap m r0) \<and>
                   (\<forall>arrs x v. sec_rho (heap m r0) = Num v \<longrightarrow>
                      read_rho r0 (iadd_rho (fresh m) x (m', arrs)) = v \<and>
                      read_rho (fresh m) (iadd_rho r0 x (m', arrs)) = v) \<and>
                   (\<forall>arrs x p. sec_rho (heap m r0) = Arr p \<longrightarrow>
                      read_rho r0 (iadd_rho (fresh m) x (m', arrs)) = arrs p + x \<and>
                      read_rho (fresh m) (iadd_rho (fresh m) x (m', arrs)) = arrs p + x \<and>
                      read_rho r0 (iadd_rho r0 x (m', arrs)) = arrs p + x \<and>
                      read_rho (fresh m) (iadd_rho r0 x (m', arrs)) = arrs p + x)"
  proof (intro exI [of _ m'] conjI allI impI)
    show "add_node s m = Inr m'" by (rule c(1))
    show "map_of (sections m') s = Some (Some (fresh m))"
      by (simp add: m'_def map_of_sd_set)
    show "map_of (sections m') ka = Some (Some r0)" by (rule ka)
    show "fresh m \<noteq> r0" by (rule ne(1))
    show "heap m' (fresh m) = heap m r0" by (rule hp(1))
    show "heap m' r0 = heap m r0" by (rule hp(2))
    show "heap (update_object (fresh m) f m') r0 = heap m r0" for f
      using c(2) by (simp add: m'_def update_object_def)
    show "heap (update_object r0 f m') (fresh m) = heap m r0" for f
      using c(2) by (simp add: m'_def update_object_def)
  next
    fix arrs :: "'v arrays" and x v
    assume n: "sec_rho (heap m r0) = Num v"
    show "read_rho r0 (iadd_rho (fresh m) x (m', arrs)) = v"
      using n hp ne by (simp add: read_rho_def iadd_rho_def make_float_def update_object_def)
    show "read_rho (fresh m) (iadd_rho r0 x (m', arrs)) = v"
      using n hp ne by (simp add: read_rho_def iadd_rho_def make_float_def update_object_def)
  next
    fix arrs :: "'v arrays" and x p
    assume a: "sec_rho (heap m r0) = Arr p"
    show "read_rho r0 (iadd_rho (fresh m) x (m', arrs)) = arrs p + x"
      using a hp by (simp add: read_rho_def iadd_rho_def make_float_def)
    show "read_rho (fresh m) (iadd_rho (fresh m) x (m', arrs)) = arrs p + x"
      using a hp by (simp add: read_rho_def iadd_rho_def make_float_def)
    show "read_rho r0 (iadd_rho r0 x (m', arrs)) = arrs p + x"
      using a hp by (simp add: read_rho_def iadd_rho_def make_float_def)
    show "read_rho (fresh m) (iadd_rho r0 x (m', arrs)) = arrs p + x"
      using a hp by (simp add: read_rho_def iadd_rho_def make_float_def)
  qed
qed

lemma reg_main_facts:
  "sorted_keys reg_main" "refs_allocated reg_main"
  "sorted_keys reg_ballasted" "refs_allocated reg_ballasted"
  by (simp_all add: sorted_keys_def refs_allocated_def keys_def reg_main_def reg_ballasted_def)

theorem add_node_range_and_copy_witness:
  "sorted_keys reg_main \<and> refs_allocated reg_main \<and>
   (\<exists>e. add_node (- 1) reg_main = Inl e) \<and>
   (\<exists>m'. add_node (1 / 2) reg_main = Inr m' \<and>
          map_of (sections m') (1 / 2) = Some (Some 1) \<and>
          map_of (sections m') 0 = Some (Some 0) \<and>
          heap m' 1 = steel_main \<and>
          heap (update_object 1 (\<lambda>c. c\<lparr>sec_t := Num (1 / 100)\<rparr>) m') 0 = steel_main \<and>
          heap (update_object 0 (\<lambda>c. c\<lparr>sec_t := Num (1 / 100)\<rparr>) m') 1 = steel_main \<and>
          read_rho 0 (iadd_rho 1 100 (m', arrays0)) = 7800 \<and>
          read_rho 1 (iadd_rho 0 100 (m', arrays0)) = 7800) \<and>
   sorted_keys reg_ballasted \<and> refs_allocated reg_ballasted \<and>
   (\<exists>m'. add_node (1 / 2) reg_ballasted = Inr m' \<and>
          heap m' 1 = steel_ballasted \<and>
          read_rho 0 (iadd_rho 1 100 (m', arrays0)) = 8100 \<and>
          read_rho 1 (iadd_rho 0 100 (m', arrays0)) = 8100)"
proof -
  note a = reg_main_facts(1) and b = reg_main_facts(2)
  have k: "\<forall>k \<in> set (keys reg_main). (- 1) < k" by (simp add: keys_def reg_main_def)
  have p: "(0, Some 0) \<in> set (sections reg_main) \<and> (0::rat) < 1 / 2 \<and>
           (\<forall>k \<in> set (keys reg_main). k \<le> 0 \<or> 1 / 2 < k)"
    by (simp add: keys_def reg_main_def)
  have f: "fresh reg_main = 1" "heap reg_main 0 = steel_main" by (simp_all add: reg_main_def)
  note t = add_node_range_and_copy [OF a b]
  have e: "\<exists>e. add_node (- 1) reg_main = Inl e"
    using t [of "- 1", THEN conjunct1] k by simp
  note t4 = t [of "1 / 2", THEN conjunct2, THEN conjunct2, THEN conjunct2, rule_format,
               of 0 0, OF p, unfolded f]
  from t4 obtain m' where m': "add_node (1 / 2) reg_main = Inr m' \<and>
          map_of (sections m') (1 / 2) = Some (Some 1) \<and>
          map_of (sections m') 0 = Some (Some 0) \<and>
          (1::nat) \<noteq> 0 \<and>
          heap m' 1 = steel_main \<and>
          heap m' 0 = steel_main \<and>
          (\<forall>f. heap (update_object 1 f m') 0 = steel_main) \<and>
          (\<forall>f. heap (update_object 0 f m') 1 = steel_main) \<and>
          (\<forall>arrs x v. sec_rho steel_main = Num v \<longrightarrow>
                      read_rho 0 (iadd_rho 1 x (m', arrs)) = v \<and>
                      read_rho 1 (iadd_rho 0 x (m', arrs)) = v) \<and>
          (\<forall>arrs x p. sec_rho steel_main = Arr p \<longrightarrow>
                      read_rho 0 (iadd_rho 1 x (m', arrs)) = arrs p + x \<and>
                      read_rho 1 (iadd_rho 1 x (m', arrs)) = arrs p + x \<and>
                      read_rho 0 (iadd_rho 0 x (m', arrs)) = arrs p + x \<and>
                      read_rho 1 (iadd_rho 0 x (m', arrs)) = arrs p + x)" ..
  have rn: "sec_rho steel_main = Num 7800" by (simp add: steel_main_def)
  have num: "read_rho 0 (iadd_rho 1 100 (m', arrays0)) = 7800 \<and>
             read_rho 1 (iadd_rho 0 100 (m', arrays0)) = 7800"
    using m' rn by blast
  have c: "\<exists>m'. add_node (1 / 2) reg_main = Inr m' \<and>
          map_of (sections m') (1 / 2) = Some (Some 1) \<and>
          map_of (sections m') 0 = Some (Some 0) \<and>
          heap m' 1 = steel_main \<and>
          heap (update_object 1 (\<lambda>c. c\<lparr>sec_t := Num (1 / 100)\<rparr>) m') 0 = steel_main \<and>
          heap (update_object 0 (\<lambda>c. c\<lparr>sec_t := Num (1 / 100)\<rparr>) m') 1 = steel_main \<and>
          read_rho 0 (iadd_rho 1 100 (m', arrays0)) = 7800 \<and>
          read_rho 1 (iadd_rho 0 100 (m', arrays0)) = 7800"
    using m' num by (intro exI [of _ m']) simp
  note a2 = reg_main_facts(3) and b2 = reg_main_facts(4)
  have p2: "(0, Some 0) \<in> set (sections reg_ballasted) \<and> (0::rat) < 1 / 2 \<and>
           (\<forall>k \<in> set (keys reg_ballasted). k \<le> 0 \<or> 1 / 2 < k)"
    by (simp add: keys_def reg_ballasted_def)
  have f2: "fresh reg_ballasted = 1" "heap reg_ballasted 0 = steel_ballasted"
    by (simp_all add: reg_ballasted_def)
  note u4 = add_node_range_and_copy [OF a2 b2, of "1 / 2", THEN conjunct2, THEN conjunct2,
               THEN conjunct2, rule_format, of 0 0, OF p2, unfolded f2]
  from u4 obtain n' where n': "add_node (1 / 2) reg_ballasted = Inr n' \<and>
          map_of (sections n') (1 / 2) = Some (Some 1) \<and>
          map_of (sections n') 0 = Some (Some 0) \<and>
          (1::nat) \<noteq> 0 \<and>
          heap n' 1 = steel_ballasted \<and>
          heap n' 0 = steel_ballasted \<and>
          (\<forall>f. heap (update_object 1 f n') 0 = steel_ballasted) \<and>
          (\<forall>f. heap (update_object 0 f n') 1 = steel_ballasted) \<and>
          (\<forall>arrs x v. sec_rho steel_ballasted = Num v \<longrightarrow>
                      read_rho 0 (iadd_rho 1 x (n', arrs)) = v \<and>
                      read_rho 1 (iadd_rho 0 x (n', arrs)) = v) \<and>
          (\<forall>arrs x p. sec_rho steel_ballasted = Arr p \<longrightarrow>
                      read_rho 0 (iadd_rho 1 x (n', arrs)) = arrs p + x \<and>
                      read_rho 1 (iadd_rho 1 x (n', arrs)) = arrs p + x \<and>
                      read_rho 0 (iadd_rho 0 x (n', arrs)) = arrs p + x \<and>
                      read_rho 1 (iadd_rho 0 x (n', arrs)) = arrs p + x)" ..
  have ra: "sec_rho steel_ballasted = Arr 0" by (simp add: steel_ballasted_def)
  have "read_rho 0 (iadd_rho 1 100 (n', arrays0)) = arrays0 0 + 100 \<and>
        read_rho 1 (iadd_rho 0 100 (n', arrays0)) = arrays0 0 + 100"
    using n' ra by blast
  then have arr: "read_rho 0 (iadd_rho 1 100 (n', arrays0)) = 8100 \<and>
        read_rho 1 (iadd_rho 0 100 (n', arrays0)) = 8100"
    by (simp add: arrays0_def)
  have c2: "\<exists>m'. add_node (1 / 2) reg_ballasted = Inr m' \<and>
          heap m' 1 = steel_ballasted \<and>
          read_rho 0 (iadd_rho 1 100 (m', arrays0)) = 8100 \<and>
          read_rho 1 (iadd_rho 0 100 (m', arrays0)) = 8100"
    using n' arr by (intro exI [of _ n']) simp
  show ?thesis using a b e c a2 b2 c2 by (intro conjI)
qed

theorem add_node_shallow_copy_counterexample:
  "sorted_keys reg_ballasted \<and> refs_allocated reg_ballasted \<and>
   add_node (1 / 2) reg_ballasted = Inr reg_ballasted_half \<and>
   map_of (sections reg_ballasted_half) 0 = Some (Some 0) \<and>
   map_of (sections reg_ballasted_half) (1 / 2) = Some (Some 1) \<and>
   read_rho 0 (reg_ballasted_half, arrays0) = 8000 \<and>
   read_rho 1 (reg_ballasted_half, arrays0) = 8000 \<and>
   read_rho 1 (iadd_rho 1 100 (reg_ballasted_half, arrays0)) = 8100 \<and>
   read_rho 0 (iadd_rho 1 100 (reg_ballasted_half, arrays0)) = 8100 \<and>
   read_rho 0 (iadd_rho 1 100 (reg_ballasted_half, arrays0)) \<noteq>
     read_rho 0 (reg_ballasted_half, arrays0)"
proof -
  have "add_node (1 / 2) reg_ballasted = Inr reg_ballasted_half"
    by (simp add: add_node_def keys_def bisect_left_def alloc_def Let_def reg_ballasted_def
          reg_ballasted_half_def)
  moreover have "sec_rho (heap reg_ballasted_half 0) = Arr 0"
    "sec_rho (heap reg_ballasted_half 1) = Arr 0"
    by (simp_all add: reg_ballasted_half_def steel_ballasted_def)
  moreover have "map_of (sections reg_ballasted_half) 0 = Some (Some 0)"
    "map_of (sections reg_ballasted_half) (1 / 2) = Some (Some 1)"
    by (simp_all add: reg_ballasted_half_def)
  ultimately show ?thesis
    using reg_main_facts(3,4)
    by (simp add: read_rho_def iadd_rho_def make_float_def arrays0_def)
qed

section \<open>The registry invariant\<close>

lemma sd_set_append:
  "\<forall>x \<in> set xs. fst x < s \<Longrightarrow> sd_set s v (xs @ ys) = xs @ sd_set s v ys"
  by (induction xs) auto

lemma sd_set_last:
  "kvs \<noteq> [] \<Longrightarrow> s < fst (last kvs) \<Longrightarrow>
   last (sd_set s v kvs) = last kvs \<and>
   set (butlast (sd_set s v kvs)) \<subseteq> insert (s, v) (set (butlast kvs))"
proof (induction kvs)
  case Nil
  then show ?case by simp
next
  case (Cons kv kvs)
  obtain k w where kv: "kv = (k, w)" by (cases kv)
  show ?case
  proof (cases "kvs = []")
    case True
    then show ?thesis using Cons.prems kv by auto
  next
    case False
    then have "s < fst (last kvs)" using Cons.prems by simp
    from Cons.IH [OF False this] have
      ih: "last (sd_set s v kvs) = last kvs"
          "set (butlast (sd_set s v kvs)) \<subseteq> insert (s, v) (set (butlast kvs))"
      by simp_all
    have ne: "sd_set s v kvs \<noteq> []" by (cases kvs) (auto split: if_splits)
    show ?thesis using False ih ne kv by auto
  qed
qed

lemma sd_set_nth_below:
  "i < bisect_left s kvs \<Longrightarrow> sd_set s v kvs ! i = kvs ! i \<and> fst (kvs ! i) < s"
proof (induction kvs arbitrary: i)
  case Nil
  then show ?case by (simp add: bisect_left_def)
next
  case (Cons kv kvs)
  obtain k w where kv: "kv = (k, w)" by (cases kv)
  have ks: "k < s" using Cons.prems kv by (auto simp: bisect_left_def split: if_splits)
  show ?case
  proof (cases i)
    case 0
    then show ?thesis using ks kv by auto
  next
    case (Suc j)
    then have "j < bisect_left s kvs" using Cons.prems ks kv by (simp add: bisect_left_def)
    from Cons.IH [OF this] show ?thesis using Suc ks kv by auto
  qed
qed

lemma bisect_left_le: "bisect_left s kvs \<le> length kvs"
  by (simp add: bisect_left_def length_takeWhile_le)

lemma bisect_left_mono:
  "s0 \<le> s1 \<Longrightarrow> bisect_left s0 kvs \<le> bisect_left (s1::'k::linorder) kvs"
  by (induction kvs) (auto simp: bisect_left_def)

lemma bisect_left_butlast:
  "kvs \<noteq> [] \<Longrightarrow> s \<le> fst (last kvs) \<Longrightarrow> bisect_left s kvs < length kvs"
  by (induction kvs) (auto simp: bisect_left_def split: if_splits)

lemma registry_inv_sd_set:
  assumes "registry_inv m" and "k < fst (last (sections m))"
    and "sections m' = sd_set k (Some r) (sections m)"
  shows "registry_inv m' \<and> last (sections m') = last (sections m)"
proof -
  have ne: "sections m \<noteq> []" using assms(1) by (simp add: registry_inv_def)
  note l = sd_set_last [OF ne assms(2), of "Some r"]
  have "sections m' \<noteq> []" using assms(3) ne by (cases "sections m") (auto split: if_splits)
  moreover have "sorted_wrt (<) (keys m')"
    using assms(1,3) sd_set_sorted [of "sections m" k "Some r"]
    by (simp add: registry_inv_def keys_def)
  moreover have "snd (last (sections m')) = None"
    using l assms(1,3) by (simp add: registry_inv_def)
  moreover have "\<forall>kv \<in> set (butlast (sections m')). snd kv \<noteq> None"
    using l assms(1,3) by (auto simp: registry_inv_def)
  ultimately show ?thesis using l assms(3) by (simp add: registry_inv_def)
qed

lemma nth_butlast_mem: "i < length xs - 1 \<Longrightarrow> xs ! i \<in> set (butlast xs)"
  by (metis length_butlast nth_butlast nth_mem)

lemma add_node_inv:
  assumes "registry_inv m" and "s \<le> fst (last (sections m))" and "add_node s m = Inr m'"
  shows "registry_inv m' \<and> last (sections m') = last (sections m)"
proof (cases "s \<in> set (keys m)")
  case True
  then show ?thesis using assms by (simp add: add_node_present)
next
  case False
  have ne: "sections m \<noteq> []" using assms(1) by (simp add: registry_inv_def)
  have "fst (last (sections m)) \<in> set (keys m)" using ne by (simp add: keys_def)
  then have lt: "s < fst (last (sections m))" using False assms(2) by (cases "s = fst (last (sections m))") auto
  have pos: "0 < bisect_left s (sections m)"
    using assms(3) False by (auto simp: add_node_def Let_def split: if_splits)
  have "bisect_left s (sections m) < length (sections m)"
    using bisect_left_butlast [OF ne assms(2)] .
  then have "nat (int (bisect_left s (sections m)) - 1) < length (sections m) - 1"
    using pos by auto
  then have "sections m ! nat (int (bisect_left s (sections m)) - 1) \<in> set (butlast (sections m))"
    by (rule nth_butlast_mem)
  then obtain r where r: "snd (sections m ! nat (int (bisect_left s (sections m)) - 1)) = Some r"
    using assms(1) by (auto simp: registry_inv_def)
  have "sections m' = sd_set s (Some (fresh m)) (sections m)"
    using assms(3) False pos r by (auto simp: add_node_def Let_def alloc_def)
  then show ?thesis by (rule registry_inv_sd_set [OF assms(1) lt])
qed

lemma add_node_nth_below:
  assumes "add_node s m = Inr m'" and "i < bisect_left s (sections m)"
  shows "sections m' ! i = sections m ! i \<and> fst (sections m ! i) < s"
proof (cases "s \<in> set (keys m)")
  case True
  have "fst (sections m ! i) < s"
    using assms(2) nth_mem [of i "takeWhile (\<lambda>kv. fst kv < s) (sections m)"]
    by (auto simp: bisect_left_def takeWhile_nth dest: set_takeWhileD)
  then show ?thesis using True assms by (simp add: add_node_present)
next
  case False
  with assms(1) obtain v where "sections m' = sd_set s v (sections m)"
    using add_node_absent by blast
  then show ?thesis using sd_set_nth_below [OF assms(2)] by simp
qed

lemma insert_section_inv:
  assumes "registry_inv m" and "s0 \<le> s1" and "s0 < fst (last (sections m))"
    and "s1 \<le> fst (last (sections m))" and "insert_section s0 s1 r m = Inr m'"
  shows "registry_inv m' \<and> last (sections m') = last (sections m)"
proof -
  from assms(5) obtain m1 where m1: "add_node s1 m = Inr m1"
    by (auto simp: insert_section_def Let_def split: sum.splits)
  note i1 = add_node_inv [OF assms(1,4) m1]
  have s0: "s0 < fst (last (sections m1))" using i1 assms(3) by simp
  define idx0 where "idx0 = bisect_left s0 (sections m)"
  define idx1 where "idx1 = bisect_left s1 (sections m)"
  show ?thesis
  proof (cases "idx0 = idx1")
    case True
    then have "sections m' = sd_set s0 (Some r) (sections m1)"
      using assms(5) m1 by (auto simp: insert_section_def Let_def idx0_def idx1_def)
    then have "registry_inv m' \<and> last (sections m') = last (sections m1)"
      by (rule registry_inv_sd_set [OF i1 [THEN conjunct1] s0])
    then show ?thesis using i1 by simp
  next
    case False
    have "idx0 \<le> idx1" using assms(2) bisect_left_mono [of s0 s1 "sections m"]
      by (simp add: idx0_def idx1_def)
    then have lt: "idx0 < bisect_left s1 (sections m)" using False by (simp add: idx1_def)
    note n = add_node_nth_below [OF m1 lt]
    define k where "k = fst (sections m1 ! idx0)"
    have k: "k < fst (last (sections m1))" using n i1 assms(4) by (auto simp: k_def)
    define m2 where "m2 = m1\<lparr>sections := sd_set k (Some r) (sections m1)\<rparr>"
    have i2: "registry_inv m2 \<and> last (sections m2) = last (sections m1)"
      using registry_inv_sd_set [OF i1 [THEN conjunct1] k, of m2 r] by (simp add: m2_def)
    have s0': "s0 < fst (last (sections m2))" using i2 s0 by simp
    have "idx0 < length (sections m1)"
      using assms(5) m1 False
      by (auto simp: insert_section_def Let_def idx0_def idx1_def split: if_splits)
    then have "sections m' = sd_set s0 (Some r) (sections m2)"
      using assms(5) m1 False
      by (auto simp: insert_section_def Let_def idx0_def idx1_def m2_def k_def)
    then have "registry_inv m' \<and> last (sections m') = last (sections m2)"
      by (rule registry_inv_sd_set [OF i2 [THEN conjunct1] s0'])
    then show ?thesis using i1 i2 by simp
  qed
qed

lemma add_main_loop_inv:
  assumes "sorted_wrt (<) (pre @ sa # rest)" and "length ps = length rest" and "rest \<noteq> []"
    and "(sections m = [] \<and> pre = []) \<or> (registry_inv m \<and> keys m = pre @ [sa])"
  shows "registry_inv (add_main_loop (sa # rest) ps m) \<and>
         keys (add_main_loop (sa # rest) ps m) = pre @ sa # rest"
  using assms
proof (induction rest arbitrary: pre sa ps m)
  case Nil
  then show ?case by simp
next
  case (Cons sb rest)
  from Cons.prems(2) obtain p ps' where ps: "ps = p # ps'" "length ps' = length rest"
    by (cases ps) auto
  define m1 where "m1 = add_section sa sb (fresh m) (alloc p m)"
  have lt: "sa < sb" and pre_lt: "\<forall>x \<in> set pre. x < sa"
    using Cons.prems(1) by (auto simp: sorted_wrt_append)
  have step: "registry_inv m1 \<and> keys m1 = (pre @ [sa]) @ [sb]"
  proof (cases "sections m = []")
    case True
    then have "pre = []" using Cons.prems(4) by (auto simp: registry_inv_def)
    then show ?thesis using True lt
      by (auto simp: m1_def add_section_def alloc_def registry_inv_def keys_def)
  next
    case False
    then have inv: "registry_inv m" and km: "keys m = pre @ [sa]"
      using Cons.prems(4) by auto
    define xs where "xs = butlast (sections m)"
    have sm: "sections m = xs @ [(sa, None)]"
    proof -
      have "sections m = xs @ [last (sections m)]" using False by (simp add: xs_def)
      moreover have "fst (last (sections m)) = sa"
        using km False by (simp add: keys_def last_map [symmetric])
      moreover have "snd (last (sections m)) = None" using inv by (simp add: registry_inv_def)
      ultimately show ?thesis by (metis prod.collapse)
    qed
    have kx: "map fst xs = pre" using km sm by (simp add: keys_def)
    have xs_lt: "\<forall>x \<in> set xs. fst x < sa"
    proof
      fix x assume "x \<in> set xs"
      then have "fst x \<in> set pre" using kx by force
      then show "fst x < sa" using pre_lt by simp
    qed
    then have xs_lt': "\<forall>x \<in> set (xs @ [(sa, Some (fresh m))]). fst x < sb" using lt by auto
    have xs_some: "\<forall>kv \<in> set xs. snd kv \<noteq> None"
      using inv by (simp add: registry_inv_def xs_def)
    have s1: "sd_set sa (Some (fresh m)) (sections m) = xs @ [(sa, Some (fresh m))]"
      using sd_set_append [OF xs_lt] sm by simp
    have s2: "sd_set sb None (xs @ [(sa, Some (fresh m))]) = xs @ [(sa, Some (fresh m)), (sb, None)]"
      using sd_set_append [OF xs_lt', of None "[]"] by simp
    have sec: "sections m1 = xs @ [(sa, Some (fresh m)), (sb, None)]"
      using s1 s2 by (simp add: m1_def add_section_def alloc_def)
    have "sorted_wrt (<) (map fst (sections m1))"
      using Cons.prems(1) kx sec by (simp add: sorted_wrt_append)
    moreover have "butlast (sections m1) = xs @ [(sa, Some (fresh m))]"
      using sec by (simp add: butlast_append)
    ultimately show ?thesis using sec xs_some kx
      by (auto simp: registry_inv_def keys_def)
  qed
  show ?case
  proof (cases "rest = []")
    case True
    then have "add_main_loop (sa # sb # rest) ps m = m1"
      using ps by (cases ps') (simp_all add: m1_def)
    then show ?thesis using step True by simp
  next
    case False
    have "add_main_loop (sa # sb # rest) ps m = add_main_loop (sb # rest) ps' m1"
      using ps by (simp add: m1_def)
    moreover have "registry_inv (add_main_loop (sb # rest) ps' m1) \<and>
         keys (add_main_loop (sb # rest) ps' m1) = (pre @ [sa]) @ sb # rest"
      using Cons.IH [of "pre @ [sa]" sb ps' m1] Cons.prems(1) ps(2) False step by simp
    ultimately show ?thesis by simp
  qed
qed

text \<open>
  C10, as amended. The main-shell partition built from a strictly increasing grid of at
  least two positions satisfies the registry invariant (strictly increasing keys, the
  greatest key holding \<^verbatim>\<open>None\<close>, every other key holding an object), and its keys are the
  grid. A successful \<^verbatim>\<open>add_node(s)\<close> with \<open>s\<close> at most the greatest key, and a successful
  \<^verbatim>\<open>insert_section(s0, s1, section)\<close> with \<open>s0 \<le> s1\<close>, \<open>s0\<close> below the greatest key and \<open>s1\<close>
  at most the greatest key, preserve the invariant and the greatest key.
\<close>

theorem registry_invariant:
  "(sorted_wrt (<) s_full \<and> 2 \<le> length s_full \<and> length iprops = length s_full - 1 \<longrightarrow>
      registry_inv (add_main_loop s_full iprops (new_member h)) \<and>
      keys (add_main_loop s_full iprops (new_member h)) = s_full) \<and>
   (registry_inv m \<and> s \<le> last (keys m) \<and> add_node s m = Inr m' \<longrightarrow>
      registry_inv m' \<and> last (keys m') = last (keys m)) \<and>
   (registry_inv n \<and> s0 \<le> s1 \<and> s0 < last (keys n) \<and> s1 \<le> last (keys n) \<and>
      insert_section s0 s1 r n = Inr n' \<longrightarrow>
      registry_inv n' \<and> last (keys n') = last (keys n))"
proof (intro conjI impI)
  assume a: "sorted_wrt (<) s_full \<and> 2 \<le> length s_full \<and> length iprops = length s_full - 1"
  then obtain sa rest where s: "s_full = sa # rest" "rest \<noteq> []"
    by (cases s_full; cases "tl s_full") auto
  have "registry_inv (add_main_loop (sa # rest) iprops (new_member h)) \<and>
        keys (add_main_loop (sa # rest) iprops (new_member h)) = [] @ sa # rest"
    using a s by (intro add_main_loop_inv) (auto simp: new_member_def)
  then show "registry_inv (add_main_loop s_full iprops (new_member h))"
    and "keys (add_main_loop s_full iprops (new_member h)) = s_full"
    using s by simp_all
next
  assume a: "registry_inv m \<and> s \<le> last (keys m) \<and> add_node s m = Inr m'"
  then have ne: "sections m \<noteq> []" by (simp add: registry_inv_def)
  then have l: "last (keys m) = fst (last (sections m))" by (simp add: keys_def last_map)
  have i: "registry_inv m' \<and> last (sections m') = last (sections m)"
    using add_node_inv [of m s m'] a l by simp
  then show "registry_inv m'" by simp
  have "sections m' \<noteq> []" using i by (simp add: registry_inv_def)
  then show "last (keys m') = last (keys m)" using i ne by (simp add: keys_def last_map)
next
  assume a: "registry_inv n \<and> s0 \<le> s1 \<and> s0 < last (keys n) \<and> s1 \<le> last (keys n) \<and>
      insert_section s0 s1 r n = Inr n'"
  then have ne: "sections n \<noteq> []" by (simp add: registry_inv_def)
  then have l: "last (keys n) = fst (last (sections n))" by (simp add: keys_def last_map)
  have i: "registry_inv n' \<and> last (sections n') = last (sections n)"
    using insert_section_inv [of n s0 s1 r n'] a l by simp
  then show "registry_inv n'" by simp
  have "sections n' \<noteq> []" using i by (simp add: registry_inv_def)
  then show "last (keys n') = last (keys n)" using i ne by (simp add: keys_def last_map)
qed


lemma reg1_inv: "registry_inv reg1"
  by (simp add: registry_inv_def keys_def reg1_def)

lemma reg1_alloc_inv: "registry_inv reg1_alloc"
  by (simp add: registry_inv_def keys_def reg1_alloc_def alloc_def reg1_def)

lemma add_node_reg1_half: "add_node (1 / 2) reg1 = Inr reg1_half"
  by (simp add: add_node_def keys_def bisect_left_def alloc_def Let_def reg1_def reg1_half_def)

lemma insert_section_reg1: "insert_section (1 / 4) (1 / 2) 1 reg1_alloc = Inr reg1_bulkhead"
  by (simp add: insert_section_def add_node_def keys_def bisect_left_def alloc_def Let_def
        reg1_def reg1_alloc_def reg1_bulkhead_def numeral_2_eq_2)

theorem registry_invariant_witness:
  "(sorted_wrt (<) [0, 1 / 2, 1 :: rat] \<and> 2 \<le> length [0, 1 / 2, 1 :: rat] \<and>
      length [steel, steel] = length [0, 1 / 2, 1 :: rat] - 1) \<and>
   registry_inv (add_main_loop [0, 1 / 2, 1 :: rat] [steel, steel] (new_member (\<lambda>r. steel))) \<and>
   keys (add_main_loop [0, 1 / 2, 1 :: rat] [steel, steel] (new_member (\<lambda>r. steel))) = [0, 1 / 2, 1] \<and>
   (registry_inv reg1 \<and> 1 / 2 \<le> last (keys reg1) \<and> add_node (1 / 2) reg1 = Inr reg1_half) \<and>
   registry_inv reg1_half \<and> last (keys reg1_half) = last (keys reg1) \<and>
   (registry_inv reg1_alloc \<and> (1 / 4 :: rat) \<le> 1 / 2 \<and> 1 / 4 < last (keys reg1_alloc) \<and>
      1 / 2 \<le> last (keys reg1_alloc) \<and>
      insert_section (1 / 4) (1 / 2) 1 reg1_alloc = Inr reg1_bulkhead) \<and>
   registry_inv reg1_bulkhead \<and> last (keys reg1_bulkhead) = last (keys reg1_alloc)"
proof -
  have h1: "sorted_wrt (<) [0, 1 / 2, 1 :: rat] \<and> 2 \<le> length [0, 1 / 2, 1 :: rat] \<and>
      length [steel, steel] = length [0, 1 / 2, 1 :: rat] - 1" by simp
  have h2: "registry_inv reg1 \<and> 1 / 2 \<le> last (keys reg1) \<and> add_node (1 / 2) reg1 = Inr reg1_half"
    using reg1_inv add_node_reg1_half by (simp add: keys_def reg1_def)
  have h3: "registry_inv reg1_alloc \<and> (1 / 4 :: rat) \<le> 1 / 2 \<and> 1 / 4 < last (keys reg1_alloc) \<and>
      1 / 2 \<le> last (keys reg1_alloc) \<and>
      insert_section (1 / 4) (1 / 2) 1 reg1_alloc = Inr reg1_bulkhead"
    using reg1_alloc_inv insert_section_reg1 by (simp add: keys_def reg1_alloc_def alloc_def reg1_def)
  note t = registry_invariant [where s_full = "[0, 1 / 2, 1 :: rat]" and iprops = "[steel, steel]"
      and h = "\<lambda>r. steel" and m = reg1 and s = "1 / 2" and m' = reg1_half
      and n = reg1_alloc and ?s0.0 = "1 / 4" and ?s1.0 = "1 / 2" and r = 1 and n' = reg1_bulkhead]
  have c1: "registry_inv (add_main_loop [0, 1 / 2, 1 :: rat] [steel, steel] (new_member (\<lambda>r. steel))) \<and>
   keys (add_main_loop [0, 1 / 2, 1 :: rat] [steel, steel] (new_member (\<lambda>r. steel))) = [0, 1 / 2, 1 :: rat]"
    using t [THEN conjunct1] h1 by (rule mp)
  have c2: "registry_inv reg1_half \<and> last (keys reg1_half) = last (keys reg1)"
    using t [THEN conjunct2, THEN conjunct1] h2 by (rule mp)
  have c3: "registry_inv reg1_bulkhead \<and> last (keys reg1_bulkhead) = last (keys reg1_alloc)"
    using t [THEN conjunct2, THEN conjunct2] h3 by (rule mp)
  show ?thesis using h1 h2 h3 c1 c2 c3 by (intro conjI) simp_all
qed

theorem add_node_beyond_end_counterexample:
  "registry_inv reg1 \<and> add_node (3 / 2) reg1 = Inr reg1_beyond \<and> \<not> registry_inv reg1_beyond \<and>
   registry_inv reg1_alloc \<and> insert_section 1 1 1 reg1_alloc = Inr reg1_top \<and>
   \<not> registry_inv reg1_top \<and>
   registry_inv reg3 \<and> insert_section (4 / 5) (3 / 10) 3 reg3 = Inr reg3_swapped \<and>
   \<not> registry_inv reg3_swapped"
proof -
  have "registry_inv reg1 \<and> add_node (3 / 2) reg1 = Inr reg1_beyond \<and> \<not> registry_inv reg1_beyond"
    by (simp add: registry_inv_def add_node_def keys_def bisect_left_def Let_def
          reg1_def reg1_beyond_def)
  moreover have "insert_section 1 1 1 reg1_alloc = Inr reg1_top"
    by (simp add: insert_section_def add_node_def keys_def bisect_left_def alloc_def Let_def
          reg1_def reg1_alloc_def reg1_top_def numeral_2_eq_2)
  moreover have "\<not> registry_inv reg1_top" by (simp add: registry_inv_def reg1_top_def)
  moreover have "registry_inv reg3" by (simp add: registry_inv_def keys_def reg3_def)
  moreover have "insert_section (4 / 5) (3 / 10) 3 reg3 = Inr reg3_swapped"
    by (simp add: insert_section_def add_node_def keys_def bisect_left_def Let_def
          reg3_def reg3_swapped_def)
  moreover have "\<not> registry_inv reg3_swapped" by (simp add: registry_inv_def reg3_swapped_def)
  ultimately show ?thesis using reg1_alloc_inv by simp
qed

section \<open>Interval overwrite\<close>

text \<open>
  C1. \<^verbatim>\<open>insert_section(0.2, 0.8, iprop)\<close> on the three-section member straddles the two old
  keys \<open>0.3\<close> and \<open>0.6\<close>. The call succeeds; the keys \<open>0.2\<close> and \<open>0.3\<close> hold the new object,
  the new key \<open>0.8\<close> holds a copy of the object of the old interval \<open>[0.6, 1)\<close>, but the key
  \<open>0.6\<close>, which lies in \<open>[0.2, 0.8)\<close>, still holds the old object of that interval and not
  the inserted one.
\<close>

theorem insert_section_straddles_two_keys:
  "insert_section (1 / 5) (4 / 5) 3 reg3 = Inr reg3_after \<and>
   map_of (sections reg3_after) (1 / 5) = Some (Some 3) \<and>
   map_of (sections reg3_after) (3 / 10) = Some (Some 3) \<and>
   map_of (sections reg3_after) (3 / 5) = Some (Some 2) \<and>
   map_of (sections reg3_after) (4 / 5) = Some (Some 4) \<and>
   heap reg3_after 3 = bulkhead \<and>
   heap reg3_after 2 = heap reg3 2 \<and>
   heap reg3_after 4 = heap reg3 2 \<and>
   heap reg3_after 2 \<noteq> bulkhead"
proof -
  have four: "(4::nat) = Suc (Suc (Suc (Suc 0)))" by simp
  have "insert_section (1 / 5) (4 / 5) 3 reg3 = Inr reg3_after"
    by (simp add: insert_section_def add_node_def keys_def bisect_left_def alloc_def Let_def
          reg3_def reg3_after_def four)
  moreover have "heap reg3_after 2 \<noteq> bulkhead"
    by (simp add: reg3_after_def bulkhead_def steel_def)
  ultimately show ?thesis
    by (simp add: reg3_def reg3_after_def)
qed

section \<open>What interval overwrite guarantees\<close>

lemma bisect_left_nth_ge:
  assumes "sorted_wrt (<) (map fst kvs)" and "bisect_left s kvs \<le> i" and "i < length kvs"
  shows "s \<le> fst (kvs ! i)"
proof -
  let ?n = "bisect_left s kvs"
  have n: "?n < length kvs" using assms(2,3) by simp
  then have "\<not> fst (kvs ! ?n) < s"
    unfolding bisect_left_def by (rule nth_length_takeWhile)
  then have a: "s \<le> fst (kvs ! ?n)" by simp
  show ?thesis
  proof (cases "?n = i")
    case True
    then show ?thesis using a by simp
  next
    case False
    then have "?n < i" using assms(2) by simp
    then have "map fst kvs ! ?n < map fst kvs ! i"
      by (rule sorted_wrt_nth_less [OF assms(1)]) (use assms(3) in simp)
    then show ?thesis using a n assms(3) by simp
  qed
qed

lemma key_between_index:
  assumes "sorted_wrt (<) (map fst kvs)" and "kv \<in> set kvs" and "s0 \<le> fst kv" and "fst kv < s1"
  shows "bisect_left s0 kvs < bisect_left s1 kvs"
proof -
  from assms(2) obtain i where i: "i < length kvs" "kvs ! i = kv" by (auto simp: in_set_conv_nth)
  have "i < bisect_left s1 kvs"
  proof (rule ccontr)
    assume "\<not> i < bisect_left s1 kvs"
    then have "s1 \<le> fst (kvs ! i)" using bisect_left_nth_ge [OF assms(1) _ i(1)] by simp
    then show False using i(2) assms(4) by simp
  qed
  moreover have "bisect_left s0 kvs \<le> i"
  proof (rule ccontr)
    assume "\<not> bisect_left s0 kvs \<le> i"
    then have "fst (kvs ! i) < s0" using sd_set_nth_below [of i s0 kvs] by simp
    then show False using i(2) assms(3) by simp
  qed
  ultimately show ?thesis by simp
qed

text \<open>
  On a registry with strictly increasing keys, for \<open>s0 < s1\<close> and \<open>s1\<close> not below every key,
  \<^verbatim>\<open>insert_section(s0, s1, section)\<close> succeeds; afterwards the key \<open>s0\<close> holds the inserted
  object, the key \<open>s1\<close> holds what \<^verbatim>\<open>add_node(s1)\<close> alone leaves there (its old value, or a
  copy of the section of the interval that contained \<open>s1\<close>), and, when at most one old key
  lies in \<open>[s0, s1)\<close>, every key in \<open>[s0, s1)\<close> holds the inserted object.
\<close>

lemma insert_section_effect:
  assumes "sorted_keys m" and "s0 < s1" and "\<exists>k \<in> set (keys m). k \<le> s1"
  shows "\<exists>m1 m'. add_node s1 m = Inr m1 \<and> insert_section s0 s1 r m = Inr m' \<and>
           heap m' = heap m1 \<and>
           map_of (sections m') s0 = Some (Some r) \<and>
           map_of (sections m') s1 = map_of (sections m1) s1 \<and>
           ((\<forall>k \<in> set (keys m). \<forall>k' \<in> set (keys m).
               s0 \<le> k \<and> k < s1 \<and> s0 \<le> k' \<and> k' < s1 \<longrightarrow> k = k') \<longrightarrow>
            (\<forall>k \<in> set (keys m'). s0 \<le> k \<and> k < s1 \<longrightarrow>
               map_of (sections m') k = Some (Some r)))"
proof -
  have "\<not> (\<forall>k \<in> set (keys m). s1 < k)" using assms(3) by (auto simp: not_less)
  then have "\<not> (\<exists>e. add_node s1 m = Inl e)" using add_node_error_iff [OF assms(1)] by blast
  then obtain m1 where m1: "add_node s1 m = Inr m1" by (cases "add_node s1 m") auto
  define idx0 where "idx0 = bisect_left s0 (sections m)"
  define idx1 where "idx1 = bisect_left s1 (sections m)"
  have sm: "sorted_wrt (<) (map fst (sections m))"
    using assms(1) by (simp add: sorted_keys_def keys_def)
  have k1: "set (keys m1) = insert s1 (set (keys m))" using m1 by (rule add_node_keys)
  show ?thesis
  proof (cases "idx0 = idx1")
    case True
    define m' where "m' = m1\<lparr>sections := sd_set s0 (Some r) (sections m1)\<rparr>"
    have r: "insert_section s0 s1 r m = Inr m'"
      using m1 True by (simp add: insert_section_def Let_def idx0_def idx1_def m'_def)
    have none: "\<not> (s0 \<le> fst kv \<and> fst kv < s1)" if "kv \<in> set (sections m)" for kv
      using key_between_index [OF sm that, of s0 s1] True by (auto simp: idx0_def idx1_def)
    have mp: "map_of (sections m') = (map_of (sections m1))(s0 \<mapsto> Some r)"
      by (simp add: m'_def map_of_sd_set)
    have km': "set (keys m') = insert s0 (insert s1 (set (keys m)))"
      using k1 by (simp add: m'_def keys_def set_sd_set)
    have "map_of (sections m') k = Some (Some r)"
      if "k \<in> set (keys m')" "s0 \<le> k \<and> k < s1" for k
    proof -
      have "k = s0 \<or> k \<in> set (keys m)" using that km' by auto
      moreover have "k \<notin> set (keys m)" using none that(2) by (auto simp: keys_def)
      ultimately show ?thesis using mp by simp
    qed
    moreover have "map_of (sections m') s1 = map_of (sections m1) s1"
    proof -
      have "s1 \<noteq> s0" using assms(2) by simp
      then show ?thesis unfolding mp by simp
    qed
    moreover have "map_of (sections m') s0 = Some (Some r)" unfolding mp by simp
    moreover have "heap m' = heap m1" by (simp add: m'_def)
    ultimately have "add_node s1 m = Inr m1 \<and> insert_section s0 s1 r m = Inr m' \<and>
           heap m' = heap m1 \<and>
           map_of (sections m') s0 = Some (Some r) \<and>
           map_of (sections m') s1 = map_of (sections m1) s1 \<and>
           ((\<forall>k \<in> set (keys m). \<forall>k' \<in> set (keys m).
               s0 \<le> k \<and> k < s1 \<and> s0 \<le> k' \<and> k' < s1 \<longrightarrow> k = k') \<longrightarrow>
            (\<forall>k \<in> set (keys m'). s0 \<le> k \<and> k < s1 \<longrightarrow>
               map_of (sections m') k = Some (Some r)))"
      using m1 r by blast
    then show ?thesis by blast
  next
    case False
    have "idx0 \<le> idx1" using assms(2) bisect_left_mono [of s0 s1 "sections m"]
      by (simp add: idx0_def idx1_def)
    then have lt: "idx0 < bisect_left s1 (sections m)" using False by (simp add: idx1_def)
    note n = add_node_nth_below [OF m1 lt]
    define kk where "kk = fst (sections m1 ! idx0)"
    have il: "idx0 < length (sections m)" using lt bisect_left_le [of s1 "sections m"] by simp
    have kk1: "kk < s1" using n by (simp add: kk_def)
    have kk0: "s0 \<le> kk"
      using bisect_left_nth_ge [OF sm _ il, of s0] n by (simp add: kk_def idx0_def)
    have kkm: "kk \<in> set (keys m)" using n il by (simp add: kk_def keys_def)
    have "length (sections m) \<le> length (sections m1)"
    proof (cases "s1 \<in> set (keys m)")
      case True
      then show ?thesis using m1 by (simp add: add_node_present)
    next
      case False
      with m1 obtain v where "sections m1 = sd_set s1 v (sections m)"
        using add_node_absent by blast
      moreover have "length kvs \<le> length (sd_set s v kvs)" for s :: 'a and v :: "ref option" and kvs
        by (induction kvs) auto
      ultimately show ?thesis by simp
    qed
    then have il1: "idx0 < length (sections m1)" using il by simp
    define m2 where "m2 = m1\<lparr>sections := sd_set kk (Some r) (sections m1)\<rparr>"
    define m' where "m' = m2\<lparr>sections := sd_set s0 (Some r) (sections m2)\<rparr>"
    have r: "insert_section s0 s1 r m = Inr m'"
      using m1 False il1
      by (simp add: insert_section_def Let_def idx0_def idx1_def m'_def m2_def kk_def)
    have mp: "map_of (sections m') = (map_of (sections m1))(kk \<mapsto> Some r, s0 \<mapsto> Some r)"
      by (simp add: m'_def m2_def map_of_sd_set)
    have km': "set (keys m') = insert s0 (insert s1 (set (keys m)))"
      using k1 kkm by (auto simp: m'_def m2_def keys_def set_sd_set)
    have "map_of (sections m') k = Some (Some r)"
      if u: "\<forall>k \<in> set (keys m). \<forall>k' \<in> set (keys m).
               s0 \<le> k \<and> k < s1 \<and> s0 \<le> k' \<and> k' < s1 \<longrightarrow> k = k'"
        and "k \<in> set (keys m')" "s0 \<le> k \<and> k < s1" for k
    proof -
      have "k = s0 \<or> k \<in> set (keys m)" using that km' by auto
      then show ?thesis
      proof
        assume "k = s0"
        then show ?thesis using mp by simp
      next
        assume "k \<in> set (keys m)"
        then have "k = kk" using u kkm kk0 kk1 that(3) by blast
        then show ?thesis using mp by simp
      qed
    qed
    moreover have "map_of (sections m') s1 = map_of (sections m1) s1"
    proof -
      have "s1 \<noteq> s0" "s1 \<noteq> kk" using assms(2) kk1 by simp_all
      then show ?thesis unfolding mp by simp
    qed
    moreover have "map_of (sections m') s0 = Some (Some r)" unfolding mp by simp
    moreover have "heap m' = heap m1" by (simp add: m'_def m2_def)
    ultimately have "add_node s1 m = Inr m1 \<and> insert_section s0 s1 r m = Inr m' \<and>
           heap m' = heap m1 \<and>
           map_of (sections m') s0 = Some (Some r) \<and>
           map_of (sections m') s1 = map_of (sections m1) s1 \<and>
           ((\<forall>k \<in> set (keys m). \<forall>k' \<in> set (keys m).
               s0 \<le> k \<and> k < s1 \<and> s0 \<le> k' \<and> k' < s1 \<longrightarrow> k = k') \<longrightarrow>
            (\<forall>k \<in> set (keys m'). s0 \<le> k \<and> k < s1 \<longrightarrow>
               map_of (sections m') k = Some (Some r)))"
      using m1 r by blast
    then show ?thesis by blast
  qed
qed

section \<open>The refined grid\<close>

lemma linspace_Suc:
  "0 < n \<Longrightarrow> linspace a b (Suc n) = map (\<lambda>j. a + of_nat j * ((b - a) / of_nat n)) [0..<n] @ [b]"
  by (simp add: linspace_def)

lemma step_nonneg:
  fixes h :: "'a::linordered_field"
  shows "0 < h \<Longrightarrow> a \<le> a + of_nat j * h"
  by simp

lemma step_less:
  fixes h :: "'a::linordered_field"
  shows "0 < h \<Longrightarrow> i < j \<Longrightarrow> a + of_nat i * h < a + of_nat j * h"
  by simp

lemma equal_subdivision_hd:
  "0 < n \<Longrightarrow> s \<noteq> [] \<Longrightarrow> hd (equal_subdivision s n) = hd s"
proof (induction s n rule: equal_subdivision.induct)
  case (3 a b rest n)
  then have "[0..<n] = 0 # [1..<n]" by (simp add: upt_conv_Cons)
  then show ?case by simp
qed simp_all

lemma equal_subdivision_ne: "s \<noteq> [] \<Longrightarrow> equal_subdivision s n \<noteq> []"
  by (induction s n rule: equal_subdivision.induct) simp_all

lemma set_refine_loop:
  "0 < n \<Longrightarrow> 2 \<le> length s \<Longrightarrow> set (refine_loop s n) = set (equal_subdivision s n)"
proof (induction s n rule: equal_subdivision.induct)
  case (3 a b rest n)
  show ?case
  proof (cases rest)
    case Nil
    then show ?thesis using 3(2) by (simp add: linspace_Suc)
  next
    case (Cons c rest')
    then have ih: "set (refine_loop (b # rest) n) = set (equal_subdivision (b # rest) n)"
      using 3 by simp
    have "hd (equal_subdivision (b # rest) n) = b"
      using equal_subdivision_hd [of n "b # rest"] 3(2) by simp
    moreover have "equal_subdivision (b # rest) n \<noteq> []"
      by (rule equal_subdivision_ne) simp
    ultimately have "b \<in> set (equal_subdivision (b # rest) n)"
      by (metis hd_in_set)
    then show ?thesis using ih 3(2) by (auto simp: linspace_Suc)
  qed
qed simp_all

lemma subdivision_point_bounds:
  fixes a b :: "'a::linordered_field"
  assumes "a < b" and "j < n"
  shows "a \<le> a + of_nat j * ((b - a) / of_nat n)" and "a + of_nat j * ((b - a) / of_nat n) < b"
proof -
  have n: "(0::'a) < of_nat n" using assms(2) by simp
  have h: "0 < (b - a) / of_nat n" using assms(1) n by simp
  show "a \<le> a + of_nat j * ((b - a) / of_nat n)" using h by (rule step_nonneg)
  have "a + of_nat j * ((b - a) / of_nat n) < a + of_nat n * ((b - a) / of_nat n)"
    using h assms(2) by (rule step_less)
  also have "\<dots> = b" using n by simp
  finally show "a + of_nat j * ((b - a) / of_nat n) < b" .
qed

lemma subdivision_points_sorted:
  fixes a b :: "'a::linordered_field"
  assumes "a < b" and "0 < n"
  shows "sorted_wrt (<) (map (\<lambda>j. a + of_nat j * ((b - a) / of_nat n)) [0..<n])"
proof -
  have h: "0 < (b - a) / of_nat n" using assms by simp
  have "sorted_wrt (\<lambda>i j. a + of_nat i * ((b - a) / of_nat n) < a + of_nat j * ((b - a) / of_nat n))
          [0..<n]"
    by (rule sorted_wrt_mono_rel [OF _ sorted_wrt_upt]) (rule step_less [OF h])
  then show ?thesis by (simp add: sorted_wrt_map)
qed

lemma equal_subdivision_lower:
  "0 < n \<Longrightarrow> sorted_wrt (<) (a # rest) \<Longrightarrow> x \<in> set (equal_subdivision (a # rest) n) \<Longrightarrow> a \<le> x"
proof (induction rest arbitrary: a)
  case Nil
  then show ?case by simp
next
  case (Cons b rest)
  have ab: "a < b" using Cons.prems(2) by simp
  from Cons.prems(3) consider
      j where "j < n" "x = a + of_nat j * ((b - a) / of_nat n)"
    | "x \<in> set (equal_subdivision (b # rest) n)" by auto
  then show ?case
  proof cases
    case 1
    then show ?thesis using subdivision_point_bounds(1) [OF ab, of j n] by simp
  next
    case 2
    then have "b \<le> x" using Cons.IH [of b] Cons.prems(1,2) by simp
    then show ?thesis using ab by simp
  qed
qed

lemma equal_subdivision_sorted:
  "0 < n \<Longrightarrow> sorted_wrt (<) s \<Longrightarrow> sorted_wrt (<) (equal_subdivision s n)"
proof (induction s n rule: equal_subdivision.induct)
  case (3 a b rest n)
  have ab: "a < b" using 3(3) by simp
  have "sorted_wrt (<) (equal_subdivision (b # rest) n)" using 3 by simp
  moreover have "sorted_wrt (<) (map (\<lambda>j. a + of_nat j * ((b - a) / of_nat n)) [0..<n])"
    using subdivision_points_sorted [OF ab 3(2)] .
  moreover have "x < y"
    if "x \<in> set (map (\<lambda>j. a + of_nat j * ((b - a) / of_nat n)) [0..<n])"
      and "y \<in> set (equal_subdivision (b # rest) n)" for x y
  proof -
    from that(1) obtain j where "j < n" "x = a + of_nat j * ((b - a) / of_nat n)" by auto
    then have "x < b" using subdivision_point_bounds(2) [OF ab, of j n] by simp
    moreover have "b \<le> y" using equal_subdivision_lower [of n b rest y] 3(2,3) that(2) by simp
    ultimately show ?thesis by simp
  qed
  ultimately show ?case by (simp add: sorted_wrt_append)
qed simp_all

lemma equal_subdivision_length:
  "s \<noteq> [] \<Longrightarrow> length (equal_subdivision s n) = 1 + n * (length s - 1)"
  by (induction s n rule: equal_subdivision.induct) simp_all

lemma equal_subdivision_nth:
  "0 < n \<Longrightarrow> k + 1 < length s \<Longrightarrow> j \<le> n \<Longrightarrow>
   equal_subdivision s n ! (k * n + j) = s ! k + of_nat j * ((s ! (k + 1) - s ! k) / of_nat n)"
proof (induction s n arbitrary: k rule: equal_subdivision.induct)
  case (3 a b rest n)
  let ?pts = "map (\<lambda>j. a + of_nat j * ((b - a) / of_nat n)) [0..<n]"
  have len: "length ?pts = n" by simp
  show ?case
  proof (cases k)
    case 0
    show ?thesis
    proof (cases "j < n")
      case True
      then show ?thesis using 0 by (simp add: nth_append)
    next
      case False
      then have jn: "j = n" using 3(4) by simp
      have "equal_subdivision (b # rest) n ! 0 = b"
        using equal_subdivision_hd [of n "b # rest"] equal_subdivision_ne [of "b # rest" n] 3(2)
        by (simp add: hd_conv_nth)
      then show ?thesis using 0 jn 3(2) by (simp add: nth_append)
    qed
  next
    case (Suc k')
    have "equal_subdivision (a # b # rest) n ! (k * n + j) =
          equal_subdivision (b # rest) n ! (k' * n + j)"
      using Suc by (simp add: nth_append)
    also have "\<dots> = (b # rest) ! k' + of_nat j * (((b # rest) ! (k' + 1) - (b # rest) ! k') / of_nat n)"
      using 3 Suc by simp
    finally show ?thesis using Suc by simp
  qed
qed simp_all

lemma distinct_remdups_adj_sorted: "sorted xs \<Longrightarrow> distinct (remdups_adj xs)"
proof (induction xs rule: remdups_adj.induct)
  case (3 x y xs)
  show ?case
  proof (cases "x = y")
    case True
    then show ?thesis using 3 by simp
  next
    case False
    then have "x \<notin> set (y # xs)" using 3(3) by auto
    then show ?thesis using 3 False by simp
  qed
qed simp_all

lemma np_unique_eq:
  assumes "sorted_wrt (<) ys" and "set xs = set ys"
  shows "np_unique xs = ys"
proof -
  have "sorted (np_unique xs)" by (simp add: np_unique_def)
  moreover have "distinct (np_unique xs)"
    by (simp add: np_unique_def distinct_remdups_adj_sorted)
  moreover have "sorted ys" "distinct ys" using assms(1) by (simp_all add: strict_sorted_iff)
  moreover have "set (np_unique xs) = set ys" using assms(2) by (simp add: np_unique_def)
  ultimately show ?thesis by (rule sorted_distinct_set_unique)
qed

lemma refine_grid_eq:
  assumes "sorted_wrt (<) s" and "2 \<le> length s" and "1 \<le> n"
  shows "refine_grid s n = equal_subdivision s n"
  unfolding refine_grid_def
  using assms by (intro np_unique_eq equal_subdivision_sorted set_refine_loop) simp_all

lemma set_subset_equal_subdivision: "0 < n \<Longrightarrow> set s \<subseteq> set (equal_subdivision s n)"
proof (induction s n rule: equal_subdivision.induct)
  case (3 a b rest n)
  then have "[0..<n] = 0 # [1..<n]" by (simp add: upt_conv_Cons)
  then have "a \<in> set (map (\<lambda>j. a + of_nat j * ((b - a) / of_nat n)) [0..<n])" by simp
  then show ?case using 3 by auto
qed simp_all

text \<open>
  C5. For every strictly increasing control-point grid \<open>s\<close> and every refinement factor
  \<open>n_refine \<ge> 1\<close>, the refined grid contains every control point, is strictly increasing, has
  exactly \<open>1 + n_refine * (n - 1)\<close> points, and its point \<open>k * n_refine + j\<close> is
  \<open>s[k] + j * (s[k+1] - s[k]) / n_refine\<close>: every interval of the control points is cut into
  \<open>n_refine\<close> equal parts. A control-point grid of a member always holds its two ends \<open>0\<close>
  and \<open>1\<close>, so it has at least two points.
\<close>

theorem refine_grid_correct:
  assumes "sorted_wrt (<) s" and "2 \<le> length s" and "1 \<le> n_refine"
  shows "set s \<subseteq> set (refine_grid s n_refine) \<and>
         sorted_wrt (<) (refine_grid s n_refine) \<and>
         int (length (refine_grid s n_refine)) = get_nfull (int (length s)) (int n_refine) \<and>
         (\<forall>k j. k + 1 < length s \<and> j \<le> n_refine \<longrightarrow>
            refine_grid s n_refine ! (k * n_refine + j) =
            s ! k + of_nat j * ((s ! (k + 1) - s ! k) / of_nat n_refine)) \<and>
         refine_grid s n_refine = equal_subdivision s n_refine"
proof -
  have n: "0 < n_refine" using assms(3) by simp
  have ne: "s \<noteq> []" using assms(2) by auto
  have eq: "refine_grid s n_refine = equal_subdivision s n_refine"
    using assms by (rule refine_grid_eq)
  have "int (length (equal_subdivision s n_refine)) = get_nfull (int (length s)) (int n_refine)"
    using ne assms(2) by (simp add: equal_subdivision_length get_nfull_def of_nat_diff)
  moreover have "set s \<subseteq> set (equal_subdivision s n_refine)"
    using n by (rule set_subset_equal_subdivision)
  moreover have "sorted_wrt (<) (equal_subdivision s n_refine)"
    using n assms(1) by (rule equal_subdivision_sorted)
  moreover have "\<forall>k j. k + 1 < length s \<and> j \<le> n_refine \<longrightarrow>
            equal_subdivision s n_refine ! (k * n_refine + j) =
            s ! k + of_nat j * ((s ! (k + 1) - s ! k) / of_nat n_refine)"
    using equal_subdivision_nth [OF n] by blast
  ultimately show ?thesis unfolding eq by blast
qed

theorem refine_grid_correct_witness:
  "sorted_wrt (<) [0, 1 / 2, 1 :: rat] \<and> 2 \<le> length [0, 1 / 2, 1 :: rat] \<and> (1::nat) \<le> 2 \<and>
   refine_grid [0, 1 / 2, 1 :: rat] 2 = [0, 1 / 4, 1 / 2, 3 / 4, 1] \<and>
   set [0, 1 / 2, 1 :: rat] \<subseteq> set (refine_grid [0, 1 / 2, 1 :: rat] 2) \<and>
   sorted_wrt (<) (refine_grid [0, 1 / 2, 1 :: rat] 2) \<and>
   int (length (refine_grid [0, 1 / 2, 1 :: rat] 2)) = 5"
proof -
  have a: "sorted_wrt (<) [0, 1 / 2, 1 :: rat]" by simp
  have b: "2 \<le> length [0, 1 / 2, 1 :: rat]" by simp
  have c: "(1::nat) \<le> 2" by simp
  note t = refine_grid_correct [OF a b c]
  have two: "[0..<2] = [0, 1]" by (simp add: upt_conv_Cons)
  have e: "equal_subdivision [0, 1 / 2, 1 :: rat] 2 = [0, 1 / 4, 1 / 2, 3 / 4, 1]"
    by (simp add: two)
  have g: "get_nfull (int (length [0, 1 / 2, 1 :: rat])) (int 2) = 5" by (simp add: get_nfull_def)
  have r: "refine_grid [0, 1 / 2, 1 :: rat] 2 = [0, 1 / 4, 1 / 2, 3 / 4, 1]"
    using t e by simp
  show ?thesis unfolding r by simp
qed

section \<open>Invalid geometry is rejected\<close>









section \<open>Nudging and clipping of the ring stiffeners\<close>

lemma nudge_steps:
  assumes "0 < tol"
  shows "\<exists>j::nat. nudge tol s_bulk s = Some (s - of_nat j * tol) \<and>
           (\<forall>i < j. (\<exists>b \<in> set s_bulk. \<bar>b - (s - of_nat i * tol)\<bar> \<le> tol) \<and>
                     tol < s - of_nat i * tol) \<and>
           \<not> ((\<exists>b \<in> set s_bulk. \<bar>b - (s - of_nat j * tol)\<bar> \<le> tol) \<and>
              tol < s - of_nat j * tol)"
proof (induction "nat \<lceil>s / tol\<rceil>" arbitrary: s rule: less_induct)
  case less
  show ?case
  proof (cases "list_ex (\<lambda>b. \<bar>b - s\<bar> \<le> tol) s_bulk \<and> s > tol")
    case False
    then have "nudge tol s_bulk s = Some s" using nudge.simps [of tol s_bulk s] by auto
    then show ?thesis using False by (intro exI [of _ 0]) (simp add: list_ex_iff)
  next
    case True
    then have st: "tol < s" by simp
    have q: "(s - tol) / tol = s / tol - 1" using assms by (simp add: diff_divide_distrib)
    have "1 < s / tol" using st assms by simp
    then have "1 < \<lceil>s / tol\<rceil>" by (simp add: less_ceiling_iff)
    then have "nat \<lceil>(s - tol) / tol\<rceil> < nat \<lceil>s / tol\<rceil>" unfolding q by simp
    from less [OF this] obtain j :: nat where
      ih: "nudge tol s_bulk (s - tol) = Some (s - tol - of_nat j * tol)"
          "\<forall>i < j. (\<exists>b \<in> set s_bulk. \<bar>b - (s - tol - of_nat i * tol)\<bar> \<le> tol) \<and>
                     tol < s - tol - of_nat i * tol"
          "\<not> ((\<exists>b \<in> set s_bulk. \<bar>b - (s - tol - of_nat j * tol)\<bar> \<le> tol) \<and>
              tol < s - tol - of_nat j * tol)"
      by blast
    have e: "s - tol - of_nat i * tol = s - of_nat (Suc i) * tol" for i
      by (simp add: algebra_simps)
    have n: "nudge tol s_bulk s = Some (s - of_nat (Suc j) * tol)"
      using True ih(1) nudge.simps [of tol s_bulk s] unfolding e by auto
    have a: "(\<exists>b \<in> set s_bulk. \<bar>b - (s - of_nat i * tol)\<bar> \<le> tol) \<and> tol < s - of_nat i * tol"
      if "i < Suc j" for i
    proof (cases i)
      case 0
      then show ?thesis using True by (simp add: list_ex_iff)
    next
      case (Suc i')
      then have "i' < j" using that by simp
      then show ?thesis using ih(2) unfolding e Suc by blast
    qed
    show ?thesis using n a ih(3) unfolding e by (intro exI [of _ "Suc j"]) blast
  qed
qed

lemma those_map_Some:
  assumes "\<forall>x \<in> set xs. \<exists>y. f x = Some y \<and> P x y"
  shows "\<exists>ys. those (map f xs) = Some ys \<and> length ys = length xs \<and>
              (\<forall>k < length xs. P (xs ! k) (ys ! k))"
  using assms
proof (induction xs)
  case Nil
  then show ?case by simp
next
  case (Cons x xs)
  from Cons.prems obtain y where y: "f x = Some y" "P x y" by auto
  from Cons obtain ys where ys: "those (map f xs) = Some ys" "length ys = length xs"
    "\<forall>k < length xs. P (xs ! k) (ys ! k)" by auto
  have "\<forall>k < length (x # xs). P ((x # xs) ! k) ((y # ys) ! k)"
    using y(2) ys(3) by (auto simp: nth_Cons split: nat.split)
  then show ?case using y(1) ys(1,2) by (intro exI [of _ "y # ys"]) simp
qed

lemma clip_intervals_ends:
  assumes "s0 \<noteq> []" and "length s1 = length s0"
  shows "\<exists>s0' s1'. clip_intervals tol s0 s1 = Inr (s0', s1') \<and>
           length s0' = length s0 \<and> length s1' = length s0 \<and>
           last s1' \<le> 1 \<and> (tol \<le> 1 \<longrightarrow> 0 \<le> hd s0') \<and>
           (2 \<le> length s0 \<longrightarrow>
              s0' ! 0 = (if s0 ! 0 < 0 then 0 else s0 ! 0) \<and>
              s1' ! 0 = (if s0 ! 0 < 0 then tol else s1 ! 0) \<and>
              s0' ! (length s0 - 1) =
                (if 1 < s1 ! (length s0 - 1) then 1 - tol else s0 ! (length s0 - 1)) \<and>
              s1' ! (length s0 - 1) =
                (if 1 < s1 ! (length s0 - 1) then 1 else s1 ! (length s0 - 1)))"
proof -
  define s0a where "s0a = (if s0 ! 0 < 0 then s0[0 := 0] else s0)"
  define s1a where "s1a = (if s0 ! 0 < 0 then s1[0 := tol] else s1)"
  define s0b where "s0b = (if last s1a > 1 then s0a[length s1a - 1 := 1 - tol] else s0a)"
  define s1b where "s1b = (if last s1a > 1 then s1a[length s1a - 1 := 1] else s1a)"
  have la: "length s0a = length s0" "length s1a = length s0" "s0a \<noteq> []" "s1a \<noteq> []"
    using assms by (auto simp: s0a_def s1a_def)
  have c: "clip_intervals tol s0 s1 = Inr (s0b, s1b)"
    using assms(1) by (simp add: clip_intervals_def Let_def s0a_def s1a_def s0b_def s1b_def)
  have h0: "0 \<le> hd s0a" using assms(1) by (cases s0) (auto simp: s0a_def)
  have "0 \<le> hd s0b" if "tol \<le> 1"
  proof (cases "last s1a > 1 \<and> length s1a - 1 = 0")
    case True
    then have "s0b = s0a[0 := 1 - tol]" by (simp add: s0b_def)
    then show ?thesis using la(3) that by (cases s0a) auto
  next
    case False
    then have "hd s0b = hd s0a" using la(1,2,3)
      by (cases s0a) (auto simp: s0b_def split: nat.split)
    then show ?thesis using h0 by simp
  qed
  moreover have "last s1b \<le> 1" using la(4) by (auto simp: s1b_def last_list_update)
  moreover have "s0b ! 0 = (if s0 ! 0 < 0 then 0 else s0 ! 0) \<and>
              s1b ! 0 = (if s0 ! 0 < 0 then tol else s1 ! 0) \<and>
              s0b ! (length s0 - 1) =
                (if 1 < s1 ! (length s0 - 1) then 1 - tol else s0 ! (length s0 - 1)) \<and>
              s1b ! (length s0 - 1) =
                (if 1 < s1 ! (length s0 - 1) then 1 else s1 ! (length s0 - 1))"
    if two: "2 \<le> length s0"
  proof -
    have l: "last s1a = s1 ! (length s0 - 1)"
      using two assms(2) la(2,4) by (simp add: last_conv_nth s1a_def)
    have d: "length s0 - 1 \<noteq> 0" "0 < length s0" "length s0 - 1 < length s0" using two by auto
    show ?thesis unfolding s0b_def s1b_def l la(2)
      using d assms(2) by (simp add: s0a_def s1a_def)
  qed
  moreover have "length s0b = length s0" "length s1b = length s0"
    using la by (auto simp: s0b_def s1b_def)
  ultimately show ?thesis using c by blast
qed

text \<open>
  C9, as amended. Let the member height and the flange width be positive, and let \<open>tol\<close> be
  the flange width over the member height (the full width, not half of it). Without
  stiffeners (\<^verbatim>\<open>n_stiff = 0\<close>) the routine returns at once; with stiffeners but no candidate
  position outside the ghost regions it raises \<^verbatim>\<open>IndexError\<close>; otherwise the layout is
  computed (the nudging loop terminates and nothing is raised). Every candidate is moved
  down in steps of \<open>tol\<close> exactly as long as its position is above \<open>tol\<close> and has a bulkhead
  within \<open>tol\<close>: the number \<open>j\<close> of steps is such that each of the positions before the
  \<open>j\<close>-th is above \<open>tol\<close> with a bulkhead within \<open>tol\<close>, and the final position is not. So
  a candidate above \<open>tol\<close> with a bulkhead within the half width \<open>tol / 2\<close> is moved down by at
  least \<open>tol\<close>, and a candidate without a bulkhead within \<open>tol\<close>, or at most \<open>tol\<close> itself, stays
  where it is. The upper end of the last interval is at most 1 and, when the flange is not
  wider than the member is long, the lower end of the first interval is at least 0: with
  two or more stiffeners the first interval is \<open>[0, tol]\<close> if its lower end was negative and
  the last is \<open>[1 - tol, 1]\<close> if its upper end was above 1, and both are
  \<open>[s - tol / 2, s + tol / 2]\<close> otherwise.
\<close>

theorem ring_stiffener_layout_correct:
  fixes L w_flange L_stiffener s_ghost1 s_ghost2 :: real and s_bulk :: "real list"
  defines "tol \<equiv> w_flange / L"
    and "cands \<equiv> stiffener_candidates L_stiffener s_ghost1 s_ghost2"
  assumes "0 < L" and "0 < w_flange"
  shows "(n_stiff_of L_stiffener = 0 \<longrightarrow>
           ring_stiffener_layout L_stiffener w_flange L s_bulk s_ghost1 s_ghost2 =
             Some (Inr Returned)) \<and>
         (n_stiff_of L_stiffener \<noteq> 0 \<and> cands = [] \<longrightarrow>
           ring_stiffener_layout L_stiffener w_flange L s_bulk s_ghost1 s_ghost2 =
             Some (Inl IndexError)) \<and>
         (cands \<noteq> [] \<longrightarrow>
           (\<exists>s_stiff s0 s1.
              ring_stiffener_layout L_stiffener w_flange L s_bulk s_ghost1 s_ghost2 =
                Some (Inr (Layout s_stiff s0 s1)) \<and>
              length s_stiff = length cands \<and> length s0 = length cands \<and>
              length s1 = length cands \<and>
              (\<forall>k < length cands.
                 (\<exists>j::nat. s_stiff ! k = cands ! k - of_nat j * tol \<and>
                    (\<forall>i < j. (\<exists>b \<in> set s_bulk. \<bar>b - (cands ! k - of_nat i * tol)\<bar> \<le> tol) \<and>
                              tol < cands ! k - of_nat i * tol) \<and>
                    \<not> ((\<exists>b \<in> set s_bulk. \<bar>b - s_stiff ! k\<bar> \<le> tol) \<and> tol < s_stiff ! k)) \<and>
                 ((\<exists>b \<in> set s_bulk. \<bar>b - cands ! k\<bar> \<le> tol / 2) \<and> tol < cands ! k \<longrightarrow>
                    s_stiff ! k \<le> cands ! k - tol) \<and>
                 (\<not> (\<exists>b \<in> set s_bulk. \<bar>b - cands ! k\<bar> \<le> tol) \<or> cands ! k \<le> tol \<longrightarrow>
                    s_stiff ! k = cands ! k)) \<and>
              last s1 \<le> 1 \<and> (w_flange \<le> L \<longrightarrow> 0 \<le> hd s0) \<and>
              (2 \<le> length cands \<longrightarrow>
                 s0 ! 0 = (if s_stiff ! 0 - tol / 2 < 0 then 0 else s_stiff ! 0 - tol / 2) \<and>
                 s1 ! 0 = (if s_stiff ! 0 - tol / 2 < 0 then tol else s_stiff ! 0 + tol / 2) \<and>
                 s0 ! (length cands - 1) =
                   (if 1 < s_stiff ! (length cands - 1) + tol / 2 then 1 - tol
                    else s_stiff ! (length cands - 1) - tol / 2) \<and>
                 s1 ! (length cands - 1) =
                   (if 1 < s_stiff ! (length cands - 1) + tol / 2 then 1
                    else s_stiff ! (length cands - 1) + tol / 2))))"
proof (intro conjI impI)
  assume "n_stiff_of L_stiffener = 0"
  then show "ring_stiffener_layout L_stiffener w_flange L s_bulk s_ghost1 s_ghost2 =
             Some (Inr Returned)"
    by (simp add: ring_stiffener_layout_def)
next
  assume "n_stiff_of L_stiffener \<noteq> 0 \<and> cands = []"
  then show "ring_stiffener_layout L_stiffener w_flange L s_bulk s_ghost1 s_ghost2 =
             Some (Inl IndexError)"
    unfolding cands_def by (simp add: ring_stiffener_layout_def clip_intervals_def)
next
  assume cne: "cands \<noteq> []"
  have tol: "0 < tol" using assms(3,4) by (simp add: tol_def)
  have ne: "n_stiff_of L_stiffener \<noteq> 0"
    using cne by (auto simp: cands_def stiffener_candidates_def)
  define Q where "Q = (\<lambda>c y. \<exists>j::nat. y = c - of_nat j * tol \<and>
                    (\<forall>i < j. (\<exists>b \<in> set s_bulk. \<bar>b - (c - of_nat i * tol)\<bar> \<le> tol) \<and>
                              tol < c - of_nat i * tol) \<and>
                    \<not> ((\<exists>b \<in> set s_bulk. \<bar>b - y\<bar> \<le> tol) \<and> tol < y))"
  have "\<exists>y. nudge tol s_bulk c = Some y \<and> Q c y" for c
    using nudge_steps [OF tol, of s_bulk c] unfolding Q_def by blast
  then have "\<forall>c \<in> set cands. \<exists>y. nudge tol s_bulk c = Some y \<and> Q c y" by blast
  from those_map_Some [OF this] obtain s_stiff where
    ss: "those (map (nudge tol s_bulk) cands) = Some s_stiff" "length s_stiff = length cands"
        "\<forall>k < length cands. Q (cands ! k) (s_stiff ! k)" by blast
  define s0 where "s0 = map (\<lambda>s. s - (1 / 2) * w_flange / L) s_stiff"
  define s1 where "s1 = map (\<lambda>s. s + (1 / 2) * w_flange / L) s_stiff"
  have l0: "s0 \<noteq> []" "length s1 = length s0" "length s0 = length cands"
    using ss(2) cne by (auto simp: s0_def s1_def)
  from clip_intervals_ends [OF l0(1,2), of tol] obtain s0' s1' where
    cl: "clip_intervals tol s0 s1 = Inr (s0', s1')" "length s0' = length s0"
        "length s1' = length s0" "last s1' \<le> 1" "tol \<le> 1 \<longrightarrow> 0 \<le> hd s0'"
        "2 \<le> length s0 \<longrightarrow>
              s0' ! 0 = (if s0 ! 0 < 0 then 0 else s0 ! 0) \<and>
              s1' ! 0 = (if s0 ! 0 < 0 then tol else s1 ! 0) \<and>
              s0' ! (length s0 - 1) =
                (if 1 < s1 ! (length s0 - 1) then 1 - tol else s0 ! (length s0 - 1)) \<and>
              s1' ! (length s0 - 1) =
                (if 1 < s1 ! (length s0 - 1) then 1 else s1 ! (length s0 - 1))"
    by blast
  have r: "ring_stiffener_layout L_stiffener w_flange L s_bulk s_ghost1 s_ghost2 =
             Some (Inr (Layout s_stiff s0' s1'))"
    using ne ss(1) cl(1) unfolding s0_def s1_def tol_def cands_def
    by (simp add: ring_stiffener_layout_def Let_def)
  have nudged: "\<forall>k < length cands.
                 (\<exists>j::nat. s_stiff ! k = cands ! k - of_nat j * tol \<and>
                    (\<forall>i < j. (\<exists>b \<in> set s_bulk. \<bar>b - (cands ! k - of_nat i * tol)\<bar> \<le> tol) \<and>
                              tol < cands ! k - of_nat i * tol) \<and>
                    \<not> ((\<exists>b \<in> set s_bulk. \<bar>b - s_stiff ! k\<bar> \<le> tol) \<and> tol < s_stiff ! k)) \<and>
                 ((\<exists>b \<in> set s_bulk. \<bar>b - cands ! k\<bar> \<le> tol / 2) \<and> tol < cands ! k \<longrightarrow>
                    s_stiff ! k \<le> cands ! k - tol) \<and>
                 (\<not> (\<exists>b \<in> set s_bulk. \<bar>b - cands ! k\<bar> \<le> tol) \<or> cands ! k \<le> tol \<longrightarrow>
                    s_stiff ! k = cands ! k)"
  proof (intro allI impI)
    fix k assume "k < length cands"
    then have "Q (cands ! k) (s_stiff ! k)" using ss(3) by simp
    then obtain j :: nat where
      j: "s_stiff ! k = cands ! k - of_nat j * tol"
         "\<forall>i < j. (\<exists>b \<in> set s_bulk. \<bar>b - (cands ! k - of_nat i * tol)\<bar> \<le> tol) \<and>
                              tol < cands ! k - of_nat i * tol"
         "\<not> ((\<exists>b \<in> set s_bulk. \<bar>b - s_stiff ! k\<bar> \<le> tol) \<and> tol < s_stiff ! k)"
      unfolding Q_def by blast
    have c1: "\<exists>j::nat. s_stiff ! k = cands ! k - of_nat j * tol \<and>
                    (\<forall>i < j. (\<exists>b \<in> set s_bulk. \<bar>b - (cands ! k - of_nat i * tol)\<bar> \<le> tol) \<and>
                              tol < cands ! k - of_nat i * tol) \<and>
                    \<not> ((\<exists>b \<in> set s_bulk. \<bar>b - s_stiff ! k\<bar> \<le> tol) \<and> tol < s_stiff ! k)"
      using j by blast
    have c2: "s_stiff ! k \<le> cands ! k - tol"
      if h: "(\<exists>b \<in> set s_bulk. \<bar>b - cands ! k\<bar> \<le> tol / 2) \<and> tol < cands ! k"
    proof -
      from h obtain b where b: "b \<in> set s_bulk" "\<bar>b - cands ! k\<bar> \<le> tol / 2" by blast
      then have "\<bar>b - cands ! k\<bar> \<le> tol" using tol by simp
      then have "(\<exists>b \<in> set s_bulk. \<bar>b - cands ! k\<bar> \<le> tol) \<and> tol < cands ! k"
        using b(1) h by blast
      then have "j \<noteq> 0" using j(1,3) by (cases j) auto
      then have "1 \<le> j" by simp
      then have "tol * 1 \<le> tol * of_nat j" using tol by (intro mult_left_mono) simp_all
      then show ?thesis using j(1) by (simp add: mult.commute)
    qed
    have c3: "s_stiff ! k = cands ! k"
      if h: "\<not> (\<exists>b \<in> set s_bulk. \<bar>b - cands ! k\<bar> \<le> tol) \<or> cands ! k \<le> tol"
    proof (cases j)
      case 0
      then show ?thesis using j(1) by simp
    next
      case (Suc j')
      then have "(\<exists>b \<in> set s_bulk. \<bar>b - (cands ! k - of_nat 0 * tol)\<bar> \<le> tol) \<and>
                              tol < cands ! k - of_nat 0 * tol"
        using j(2) by blast
      then show ?thesis using h by simp
    qed
    show "(\<exists>j::nat. s_stiff ! k = cands ! k - of_nat j * tol \<and>
                    (\<forall>i < j. (\<exists>b \<in> set s_bulk. \<bar>b - (cands ! k - of_nat i * tol)\<bar> \<le> tol) \<and>
                              tol < cands ! k - of_nat i * tol) \<and>
                    \<not> ((\<exists>b \<in> set s_bulk. \<bar>b - s_stiff ! k\<bar> \<le> tol) \<and> tol < s_stiff ! k)) \<and>
                 ((\<exists>b \<in> set s_bulk. \<bar>b - cands ! k\<bar> \<le> tol / 2) \<and> tol < cands ! k \<longrightarrow>
                    s_stiff ! k \<le> cands ! k - tol) \<and>
                 (\<not> (\<exists>b \<in> set s_bulk. \<bar>b - cands ! k\<bar> \<le> tol) \<or> cands ! k \<le> tol \<longrightarrow>
                    s_stiff ! k = cands ! k)"
      using c1 c2 c3 by (intro conjI impI)
  qed
  have first: "w_flange \<le> L \<longrightarrow> 0 \<le> hd s0'"
    using cl(5) assms(3) by (simp add: tol_def)
  have ends: "2 \<le> length cands \<longrightarrow>
                 s0' ! 0 = (if s_stiff ! 0 - tol / 2 < 0 then 0 else s_stiff ! 0 - tol / 2) \<and>
                 s1' ! 0 = (if s_stiff ! 0 - tol / 2 < 0 then tol else s_stiff ! 0 + tol / 2) \<and>
                 s0' ! (length cands - 1) =
                   (if 1 < s_stiff ! (length cands - 1) + tol / 2 then 1 - tol
                    else s_stiff ! (length cands - 1) - tol / 2) \<and>
                 s1' ! (length cands - 1) =
                   (if 1 < s_stiff ! (length cands - 1) + tol / 2 then 1
                    else s_stiff ! (length cands - 1) + tol / 2)"
  proof
    assume two: "2 \<le> length cands"
    have i: "0 < length s_stiff" "length cands - 1 < length s_stiff" using two ss(2) by auto
    have v: "s0 ! 0 = s_stiff ! 0 - tol / 2" "s1 ! 0 = s_stiff ! 0 + tol / 2"
      "s0 ! (length cands - 1) = s_stiff ! (length cands - 1) - tol / 2"
      "s1 ! (length cands - 1) = s_stiff ! (length cands - 1) + tol / 2"
      using i by (simp_all add: s0_def s1_def tol_def)
    show "s0' ! 0 = (if s_stiff ! 0 - tol / 2 < 0 then 0 else s_stiff ! 0 - tol / 2) \<and>
                 s1' ! 0 = (if s_stiff ! 0 - tol / 2 < 0 then tol else s_stiff ! 0 + tol / 2) \<and>
                 s0' ! (length cands - 1) =
                   (if 1 < s_stiff ! (length cands - 1) + tol / 2 then 1 - tol
                    else s_stiff ! (length cands - 1) - tol / 2) \<and>
                 s1' ! (length cands - 1) =
                   (if 1 < s_stiff ! (length cands - 1) + tol / 2 then 1
                    else s_stiff ! (length cands - 1) + tol / 2)"
      using cl(6) two unfolding l0(3) v by blast
  qed
  have "ring_stiffener_layout L_stiffener w_flange L s_bulk s_ghost1 s_ghost2 =
                Some (Inr (Layout s_stiff s0' s1')) \<and>
              length s_stiff = length cands \<and> length s0' = length cands \<and>
              length s1' = length cands \<and>
              (\<forall>k < length cands.
                 (\<exists>j::nat. s_stiff ! k = cands ! k - of_nat j * tol \<and>
                    (\<forall>i < j. (\<exists>b \<in> set s_bulk. \<bar>b - (cands ! k - of_nat i * tol)\<bar> \<le> tol) \<and>
                              tol < cands ! k - of_nat i * tol) \<and>
                    \<not> ((\<exists>b \<in> set s_bulk. \<bar>b - s_stiff ! k\<bar> \<le> tol) \<and> tol < s_stiff ! k)) \<and>
                 ((\<exists>b \<in> set s_bulk. \<bar>b - cands ! k\<bar> \<le> tol / 2) \<and> tol < cands ! k \<longrightarrow>
                    s_stiff ! k \<le> cands ! k - tol) \<and>
                 (\<not> (\<exists>b \<in> set s_bulk. \<bar>b - cands ! k\<bar> \<le> tol) \<or> cands ! k \<le> tol \<longrightarrow>
                    s_stiff ! k = cands ! k)) \<and>
              last s1' \<le> 1 \<and> (w_flange \<le> L \<longrightarrow> 0 \<le> hd s0') \<and>
              (2 \<le> length cands \<longrightarrow>
                 s0' ! 0 = (if s_stiff ! 0 - tol / 2 < 0 then 0 else s_stiff ! 0 - tol / 2) \<and>
                 s1' ! 0 = (if s_stiff ! 0 - tol / 2 < 0 then tol else s_stiff ! 0 + tol / 2) \<and>
                 s0' ! (length cands - 1) =
                   (if 1 < s_stiff ! (length cands - 1) + tol / 2 then 1 - tol
                    else s_stiff ! (length cands - 1) - tol / 2) \<and>
                 s1' ! (length cands - 1) =
                   (if 1 < s_stiff ! (length cands - 1) + tol / 2 then 1
                    else s_stiff ! (length cands - 1) + tol / 2))"
    using r ss(2) cl(2,3,4) l0(3) nudged first ends by (intro conjI) simp_all
  then show "\<exists>s_stiff s0 s1.
              ring_stiffener_layout L_stiffener w_flange L s_bulk s_ghost1 s_ghost2 =
                Some (Inr (Layout s_stiff s0 s1)) \<and>
              length s_stiff = length cands \<and> length s0 = length cands \<and>
              length s1 = length cands \<and>
              (\<forall>k < length cands.
                 (\<exists>j::nat. s_stiff ! k = cands ! k - of_nat j * tol \<and>
                    (\<forall>i < j. (\<exists>b \<in> set s_bulk. \<bar>b - (cands ! k - of_nat i * tol)\<bar> \<le> tol) \<and>
                              tol < cands ! k - of_nat i * tol) \<and>
                    \<not> ((\<exists>b \<in> set s_bulk. \<bar>b - s_stiff ! k\<bar> \<le> tol) \<and> tol < s_stiff ! k)) \<and>
                 ((\<exists>b \<in> set s_bulk. \<bar>b - cands ! k\<bar> \<le> tol / 2) \<and> tol < cands ! k \<longrightarrow>
                    s_stiff ! k \<le> cands ! k - tol) \<and>
                 (\<not> (\<exists>b \<in> set s_bulk. \<bar>b - cands ! k\<bar> \<le> tol) \<or> cands ! k \<le> tol \<longrightarrow>
                    s_stiff ! k = cands ! k)) \<and>
              last s1 \<le> 1 \<and> (w_flange \<le> L \<longrightarrow> 0 \<le> hd s0) \<and>
              (2 \<le> length cands \<longrightarrow>
                 s0 ! 0 = (if s_stiff ! 0 - tol / 2 < 0 then 0 else s_stiff ! 0 - tol / 2) \<and>
                 s1 ! 0 = (if s_stiff ! 0 - tol / 2 < 0 then tol else s_stiff ! 0 + tol / 2) \<and>
                 s0 ! (length cands - 1) =
                   (if 1 < s_stiff ! (length cands - 1) + tol / 2 then 1 - tol
                    else s_stiff ! (length cands - 1) - tol / 2) \<and>
                 s1 ! (length cands - 1) =
                   (if 1 < s_stiff ! (length cands - 1) + tol / 2 then 1
                    else s_stiff ! (length cands - 1) + tol / 2))"
    by blast
qed


lemma candidates_example:
  "stiffener_candidates (7 / 25) 0 1 = [7 / 50, 21 / 50, 7 / 10]"
  "stiffener_candidates (1 / 5) 0 1 = [1 / 10, 3 / 10, 1 / 2, 7 / 10, 9 / 10]"
  by (simp_all add: stiffener_candidates_def n_stiff_of_def upto.simps)

lemma nudge_examples:
  "nudge (1 / 10) [2 / 5, 1 / 5] (7 / 50) = Some (1 / 25)"
  "nudge (1 / 10) [2 / 5, 1 / 5] (21 / 50) = Some (1 / 50)"
  "nudge (1 / 10) [2 / 5, 1 / 5] (7 / 10) = Some (7 / 10)"
  "nudge (1 / 10) [1 / 10] (1 / 10) = Some (1 / 10)"
  "nudge (1 / 10) [1 / 10] (3 / 10) = Some (3 / 10)"
  "nudge (1 / 10) [1 / 10] (1 / 2) = Some (1 / 2)"
  "nudge (1 / 10) [1 / 10] (7 / 10) = Some (7 / 10)"
  "nudge (1 / 10) [1 / 10] (9 / 10) = Some (9 / 10)"
  by (simp_all add: nudge.simps)

theorem ring_stiffener_layout_counterexample:
  "ring_stiffener_layout (1 / 5) 1 10 [1 / 10] 0 1 =
     Some (Inr (Layout [1 / 10, 3 / 10, 1 / 2, 7 / 10, 9 / 10]
                       [1 / 20, 1 / 4, 9 / 20, 13 / 20, 17 / 20]
                       [3 / 20, 7 / 20, 11 / 20, 3 / 4, 19 / 20])) \<and>
   ring_stiffener_layout (7 / 25) 1 10 [2 / 5, 1 / 5] 0 1 =
     Some (Inr (Layout [1 / 25, 1 / 50, 7 / 10] [0, - (3 / 100), 13 / 20]
                       [1 / 10, 7 / 100, 3 / 4]))"
  by (simp add: ring_stiffener_layout_def candidates_example nudge_examples n_stiff_of_def
        clip_intervals_def Let_def)

lemma candidates_ghost: "stiffener_candidates (2 / 3) (1 / 2) 1 = []"
  by (simp add: stiffener_candidates_def n_stiff_of_def upto.simps)

theorem ring_stiffener_layout_correct_witness:
  "(0::real) < 10 \<and> (0::real) < 1 \<and>
   n_stiff_of 0 = 0 \<and>
   ring_stiffener_layout 0 1 10 [2 / 5, 1 / 5] 0 1 = Some (Inr Returned) \<and>
   n_stiff_of (2 / 3) \<noteq> 0 \<and> stiffener_candidates (2 / 3) (1 / 2) 1 = [] \<and>
   ring_stiffener_layout (2 / 3) 1 10 [2 / 5, 1 / 5] (1 / 2) 1 = Some (Inl IndexError) \<and>
   stiffener_candidates (7 / 25) 0 1 \<noteq> [] \<and>
   (\<exists>s_stiff s0 s1.
      ring_stiffener_layout (7 / 25) 1 10 [2 / 5, 1 / 5] 0 1 = Some (Inr (Layout s_stiff s0 s1)) \<and>
      length s_stiff = 3 \<and> last s1 \<le> 1 \<and> 0 \<le> hd s0)"
proof -
  have a: "(0::real) < 10" and b: "(0::real) < 1" by simp_all
  have n0: "n_stiff_of 0 = 0" by (simp add: n_stiff_of_def)
  have n1: "n_stiff_of (2 / 3) \<noteq> 0 \<and> stiffener_candidates (2 / 3) (1 / 2) 1 = []"
    by (simp add: candidates_ghost) (simp add: n_stiff_of_def)
  have c: "stiffener_candidates (7 / 25) 0 1 \<noteq> []" by (simp add: candidates_example)
  have r0: "ring_stiffener_layout 0 1 10 [2 / 5, 1 / 5] 0 1 = Some (Inr Returned)"
    using ring_stiffener_layout_correct [where L = 10 and w_flange = 1 and L_stiffener = 0
        and s_bulk = "[2 / 5, 1 / 5]" and ?s_ghost1.0 = 0 and ?s_ghost2.0 = 1,
        OF a b, THEN conjunct1] n0 by (rule mp)
  have r1: "ring_stiffener_layout (2 / 3) 1 10 [2 / 5, 1 / 5] (1 / 2) 1 = Some (Inl IndexError)"
    using ring_stiffener_layout_correct [where L = 10 and w_flange = 1 and L_stiffener = "2 / 3"
        and s_bulk = "[2 / 5, 1 / 5]" and ?s_ghost1.0 = "1 / 2" and ?s_ghost2.0 = 1,
        OF a b, THEN conjunct2, THEN conjunct1] n1 by (rule mp)
  from ring_stiffener_layout_correct [where L = 10 and w_flange = 1 and L_stiffener = "7 / 25"
        and s_bulk = "[2 / 5, 1 / 5]" and ?s_ghost1.0 = 0 and ?s_ghost2.0 = 1,
        OF a b, THEN conjunct2, THEN conjunct2, THEN mp, OF c]
  obtain s_stiff s0 s1 where
    r: "ring_stiffener_layout (7 / 25) 1 10 [2 / 5, 1 / 5] 0 1 = Some (Inr (Layout s_stiff s0 s1))"
       "length s_stiff = length (stiffener_candidates (7 / 25) 0 1)"
       "last s1 \<le> 1" "(1::real) \<le> 10 \<longrightarrow> 0 \<le> hd s0"
    by blast
  have "length s_stiff = 3" using r(2) by (simp add: candidates_example)
  then have "\<exists>s_stiff s0 s1.
      ring_stiffener_layout (7 / 25) 1 10 [2 / 5, 1 / 5] 0 1 = Some (Inr (Layout s_stiff s0 s1)) \<and>
      length s_stiff = 3 \<and> last s1 \<le> 1 \<and> 0 \<le> hd s0"
    using r(1,3,4) by simp
  then show ?thesis using a b n0 n1 c r0 r1 by (intro conjI) simp_all
qed

section \<open>The ballast capacity constraint\<close>

lemma upt_9: "[0..<9] = [0, 1, 2, 3, 4, 5, 6, 7, 8]"
  by code_simp

lemma linspace_10:
  "linspace a b 10 = map (\<lambda>i. a + of_nat i * ((b - a) / 9)) [0, 1, 2, 3, 4, 5, 6, 7, 8] @ [b]"
  by (simp add: linspace_def upt_9)

text \<open>
  C7. The ballast asked for on \<open>[0.8, 0.9]\<close> lies in the upper ghost region, so both ends of
  the segment are moved to \<open>0.7\<close>; the available volume is zero; the call raises nothing,
  leaves the registry as it was and reports \<^verbatim>\<open>constr_ballast_capacity = [inf]\<close>.
\<close>

theorem ballast_capacity_division_unguarded:
  "s_ballast_of ballast_in_ghost = [(7 / 10, 7 / 10)] \<and>
   sum_list (cavity_volumes cylinder (7 / 10) (7 / 10)) = 0 \<and>
   add_circular_ballast_sections cylinder ballast_in_ghost column = Inr (column, [PInf])"
proof -
  have s: "s_ballast_of ballast_in_ghost = [(7 / 10, 7 / 10)]"
    by (simp add: s_ballast_of_def ballast_in_ghost_def)
  have v: "cavity_volumes cylinder (7 / 10) (7 / 10) = [0, 0, 0, 0, 0, 0, 0, 0, 0]"
    by (simp add: cavity_volumes_def linspace_10 np_diff_def frustumVol_def cylinder_def)
  have "ballast_loop cylinder [((7 / 10, 7 / 10), 1025)] column = Inr (column, [0])"
    by (simp add: v column_def)
  then show ?thesis using s v
    by (simp add: add_circular_ballast_sections_def ballast_in_ghost_def np_div_def)
qed

section \<open>Requested ballast beyond the capacity\<close>

lemma frustumVol_nonneg: "0 \<le> h \<Longrightarrow> 0 \<le> frustumVol rb rt h"
proof -
  assume h: "0 \<le> h"
  have "rb * rb + rt * rt + rb * rt = (rb + rt / 2)\<^sup>2 + (3 / 4) * rt\<^sup>2"
    by (simp add: power2_eq_square algebra_simps)
  then have "0 \<le> rb * rb + rt * rt + rb * rt" by simp
  then show ?thesis using h by (simp add: frustumVol_def)
qed

lemma cavity_volumes_nonneg:
  assumes "a \<le> b" and "\<forall>x y. x \<le> y \<longrightarrow> z_at g x \<le> z_at g y"
  shows "0 \<le> sum_list (cavity_volumes g a b)"
proof -
  have m: "\<And>x y. x \<le> y \<Longrightarrow> z_at g x \<le> z_at g y" using assms(2) by blast
  have "\<forall>v \<in> set (cavity_volumes g a b). 0 \<le> v"
    using assms(1)
    by (auto simp: cavity_volumes_def linspace_10 np_diff_def intro!: frustumVol_nonneg m)
       (simp add: field_simps)
  then show ?thesis by (simp add: sum_list_nonneg)
qed

lemma augment_density_succeeds:
  assumes "\<forall>kv \<in> set kvs. sa \<le> fst kv \<and> fst kv < sb \<longrightarrow> snd kv \<noteq> None"
  shows "\<exists>h'. augment_density kvs sa sb mb H h = Inr h'"
  using assms
proof (induction kvs arbitrary: h)
  case Nil
  then show ?case by simp
next
  case (Cons kv kvs)
  obtain s v where kv: "kv = (s, v)" by (cases kv)
  show ?case
  proof (cases "sa \<le> s \<and> s < sb")
    case True
    then obtain r where "v = Some r" using Cons.prems kv by auto
    then show ?thesis using True kv Cons by simp
  next
    case False
    then show ?thesis using kv Cons by auto
  qed
qed

lemma below_last_has_section:
  assumes "registry_inv m" and "kv \<in> set (sections m)" and "fst kv < last (keys m)"
  shows "snd kv \<noteq> None"
proof -
  have ne: "sections m \<noteq> []" using assms(1) by (simp add: registry_inv_def)
  then have "last (keys m) = fst (last (sections m))" by (simp add: keys_def last_map)
  then have "kv \<noteq> last (sections m)" using assms(3) by auto
  moreover have "sections m = butlast (sections m) @ [last (sections m)]" using ne by simp
  ultimately have "kv \<in> set (butlast (sections m))"
    using assms(2) by (metis Un_iff empty_iff empty_set set_ConsD set_append)
  then show ?thesis using assms(1) by (simp add: registry_inv_def)
qed

lemma ballast_loop_succeeds:
  assumes "registry_inv m" and "\<forall>seg \<in> set segs. snd (fst seg) \<le> last (keys m)"
  shows "\<exists>m'. ballast_loop g segs m =
           Inr (m', map (\<lambda>seg. sum_list (cavity_volumes g (fst (fst seg)) (snd (fst seg)))) segs) \<and>
           sections m' = sections m"
  using assms
proof (induction segs arbitrary: m)
  case Nil
  then show ?case by simp
next
  case (Cons seg segs)
  obtain sa sb mb where seg: "seg = ((sa, sb), mb)" by (cases seg) auto
  define H where "H = last (map (z_at g) (linspace sa sb 10)) - hd (map (z_at g) (linspace sa sb 10))"
  have sb: "sb \<le> last (keys m)" using Cons.prems(2) seg by simp
  have "\<forall>kv \<in> set (sections m). sa \<le> fst kv \<and> fst kv < sb \<longrightarrow> snd kv \<noteq> None"
    using below_last_has_section [OF Cons.prems(1)] sb by force
  from augment_density_succeeds [OF this] obtain h' where
    h': "augment_density (sections m) sa sb mb H (heap m) = Inr h'" by blast
  have inv: "registry_inv (m\<lparr>heap := h'\<rparr>)"
    using Cons.prems(1) by (simp add: registry_inv_def keys_def)
  have "\<forall>seg \<in> set segs. snd (fst seg) \<le> last (keys (m\<lparr>heap := h'\<rparr>))"
    using Cons.prems(2) by (simp add: keys_def)
  from Cons.IH [OF inv this] obtain m' where
    m': "ballast_loop g segs (m\<lparr>heap := h'\<rparr>) =
           Inr (m', map (\<lambda>seg. sum_list (cavity_volumes g (fst (fst seg)) (snd (fst seg)))) segs)"
        "sections m' = sections m" by auto
  show ?case using h' m' seg by (simp add: H_def Let_def)
qed

lemma np_div_exceeds:
  assumes "0 \<le> va" and "va < vb"
  shows "exceeds_one (np_div vb va) \<and> (0 < va \<longrightarrow> np_div vb va = Fin (vb / va))"
proof (cases "va = 0")
  case True
  then show ?thesis using assms by (simp add: np_div_def)
next
  case False
  then have "0 < va" using assms(1) by simp
  then show ?thesis using assms(2) by (simp add: np_div_def)
qed

text \<open>
  C8. Let the registry satisfy its invariant with the upper ghost position at most its
  greatest key, let the axial coordinate \<open>z\<close> not decrease along the member, and let the
  three ballast arrays have the same length and every segment of \<^verbatim>\<open>ballast_grid\<close> have its
  ends in order. Then \<^verbatim>\<open>add_circular_ballast_sections\<close> raises nothing, and for every segment
  \<open>k\<close> whose requested volume exceeds the available volume (the sum of the nine frustum
  volumes of the segment) the output \<^verbatim>\<open>constr_ballast_capacity[k]\<close> is greater than 1: it is
  the quotient of the two volumes when the available volume is positive, and \<^verbatim>\<open>inf\<close> when
  it is zero.
\<close>

theorem ballast_capacity_exceeded:
  assumes "registry_inv m" and "ballast_s_ghost2 inp \<le> last (keys m)"
    and "\<forall>x y. x \<le> y \<longrightarrow> z_at g x \<le> z_at g y"
    and "length (ballast_grid inp) = length (ballast_volume inp)"
    and "length (ballast_density inp) = length (ballast_volume inp)"
    and "\<forall>seg \<in> set (ballast_grid inp). fst seg \<le> snd seg"
    and "k < length (ballast_volume inp)"
    and "sum_list (cavity_volumes g (fst (s_ballast_of inp ! k)) (snd (s_ballast_of inp ! k)))
           < ballast_volume inp ! k"
  shows "\<exists>m' c. add_circular_ballast_sections g inp m = Inr (m', c) \<and>
           length c = length (ballast_volume inp) \<and>
           exceeds_one (c ! k) \<and>
           (0 < sum_list (cavity_volumes g (fst (s_ballast_of inp ! k)) (snd (s_ballast_of inp ! k)))
              \<longrightarrow> c ! k = Fin (ballast_volume inp ! k /
                   sum_list (cavity_volumes g (fst (s_ballast_of inp ! k))
                                              (snd (s_ballast_of inp ! k)))))"
proof -
  define segs where
    "segs = zip (s_ballast_of inp) (map2 (*) (ballast_density inp) (ballast_volume inp))"
  define V_avail where
    "V_avail = map (\<lambda>seg. sum_list (cavity_volumes g (fst (fst seg)) (snd (fst seg)))) segs"
  have ls: "length (s_ballast_of inp) = length (ballast_volume inp)"
    using assms(4) by (simp add: s_ballast_of_def)
  have lsegs: "length segs = length (ballast_volume inp)"
    using ls assms(5) by (simp add: segs_def)
  have top: "\<forall>seg \<in> set segs. snd (fst seg) \<le> last (keys m)"
  proof
    fix seg assume "seg \<in> set segs"
    then have "(fst seg, snd seg) \<in> set (zip (s_ballast_of inp)
        (map2 (*) (ballast_density inp) (ballast_volume inp)))" by (simp add: segs_def)
    then have "fst seg \<in> set (s_ballast_of inp)" by (rule set_zip_leftD)
    then have "snd (fst seg) \<le> ballast_s_ghost2 inp" by (auto simp: s_ballast_of_def)
    then show "snd (fst seg) \<le> last (keys m)" using assms(2) by simp
  qed
  from ballast_loop_succeeds [OF assms(1) top, of g] obtain m' where
    m': "ballast_loop g segs m = Inr (m', V_avail)" by (auto simp: V_avail_def)
  have ne: "ballast_volume inp \<noteq> []" using assms(7) by auto
  define c where "c = map2 np_div (ballast_volume inp) V_avail"
  have r: "add_circular_ballast_sections g inp m = Inr (m', c)"
    using m' ne by (simp add: add_circular_ballast_sections_def segs_def c_def)
  have lv: "length V_avail = length (ballast_volume inp)" using lsegs by (simp add: V_avail_def)
  then have lc: "length c = length (ballast_volume inp)" by (simp add: c_def)
  have kseg: "fst (segs ! k) = s_ballast_of inp ! k"
    using assms(7) ls assms(5) by (simp add: segs_def)
  have vk: "V_avail ! k =
      sum_list (cavity_volumes g (fst (s_ballast_of inp ! k)) (snd (s_ballast_of inp ! k)))"
    using assms(7) lsegs kseg by (simp add: V_avail_def)
  have ck: "c ! k = np_div (ballast_volume inp ! k) (V_avail ! k)"
    using assms(7) lv by (simp add: c_def)
  have ord: "fst (s_ballast_of inp ! k) \<le> snd (s_ballast_of inp ! k)"
  proof -
    have "ballast_grid inp ! k \<in> set (ballast_grid inp)" using assms(4,7) by simp
    then have "fst (ballast_grid inp ! k) \<le> snd (ballast_grid inp ! k)" using assms(6) by blast
    then show ?thesis using assms(4,7)
      by (cases "ballast_grid inp ! k") (auto simp: s_ballast_of_def min_def)
  qed
  have nonneg: "0 \<le> V_avail ! k"
    unfolding vk using ord assms(3) by (rule cavity_volumes_nonneg)
  have "exceeds_one (c ! k) \<and>
        (0 < V_avail ! k \<longrightarrow> c ! k = Fin (ballast_volume inp ! k / V_avail ! k))"
    unfolding ck using nonneg assms(8) [folded vk] by (rule np_div_exceeds)
  then show ?thesis using r lc unfolding vk by blast
qed

lemma s_ballast_too_much: "s_ballast_of ballast_too_much = [(0, 1 / 10)]"
  by (simp add: s_ballast_of_def ballast_too_much_def)

lemma cavity_too_much: "sum_list (cavity_volumes cylinder 0 (1 / 10)) = pi * (2401 / 400)"
  by (simp add: cavity_volumes_def linspace_10 np_diff_def frustumVol_def cylinder_def
        algebra_simps)

theorem ballast_capacity_exceeded_witness:
  "registry_inv column \<and> ballast_s_ghost2 ballast_too_much \<le> last (keys column) \<and>
   z_at cylinder = (\<lambda>s. 10 * s) \<and>
   length (ballast_grid ballast_too_much) = length (ballast_volume ballast_too_much) \<and>
   length (ballast_density ballast_too_much) = length (ballast_volume ballast_too_much) \<and>
   ballast_grid ballast_too_much = [(0, 1 / 10)] \<and>
   0 < length (ballast_volume ballast_too_much) \<and>
   sum_list (cavity_volumes cylinder (fst (s_ballast_of ballast_too_much ! 0))
                                     (snd (s_ballast_of ballast_too_much ! 0)))
     < ballast_volume ballast_too_much ! 0 \<and>
   (\<exists>m' c. add_circular_ballast_sections cylinder ballast_too_much column = Inr (m', c) \<and>
           length c = 1 \<and> exceeds_one (c ! 0) \<and> c ! 0 = Fin (1000 / (pi * (2401 / 400))))"
proof -
  have h1: "registry_inv column" by (simp add: registry_inv_def keys_def column_def)
  have h2: "ballast_s_ghost2 ballast_too_much \<le> last (keys column)"
    by (simp add: ballast_too_much_def keys_def column_def)
  have h3: "\<forall>x y. x \<le> y \<longrightarrow> z_at cylinder x \<le> z_at cylinder y"
    by (simp add: cylinder_def)
  have h4: "length (ballast_grid ballast_too_much) = length (ballast_volume ballast_too_much)"
    by (simp add: ballast_too_much_def)
  have h5: "length (ballast_density ballast_too_much) = length (ballast_volume ballast_too_much)"
    by (simp add: ballast_too_much_def)
  have h6: "\<forall>seg \<in> set (ballast_grid ballast_too_much). fst seg \<le> snd seg"
    by (simp add: ballast_too_much_def)
  have h7: "0 < length (ballast_volume ballast_too_much)" by (simp add: ballast_too_much_def)
  have v: "sum_list (cavity_volumes cylinder (fst (s_ballast_of ballast_too_much ! 0))
                                     (snd (s_ballast_of ballast_too_much ! 0))) = pi * (2401 / 400)"
    by (simp add: s_ballast_too_much cavity_too_much)
  have "pi * (2401 / 400) < 4 * (2401 / 400)" using pi_less_4 by simp
  then have "pi * (2401 / 400) < 1000" by simp
  then have h8: "sum_list (cavity_volumes cylinder (fst (s_ballast_of ballast_too_much ! 0))
                                     (snd (s_ballast_of ballast_too_much ! 0)))
     < ballast_volume ballast_too_much ! 0"
    unfolding v by (simp add: ballast_too_much_def)
  have pos: "0 < pi * (2401 / 400)" by simp
  from ballast_capacity_exceeded [OF h1 h2 h3 h4 h5 h6 h7 h8] obtain m' c where
    r: "add_circular_ballast_sections cylinder ballast_too_much column = Inr (m', c)"
       "length c = length (ballast_volume ballast_too_much)" "exceeds_one (c ! 0)"
       "0 < sum_list (cavity_volumes cylinder (fst (s_ballast_of ballast_too_much ! 0))
                                     (snd (s_ballast_of ballast_too_much ! 0)))
        \<longrightarrow> c ! 0 = Fin (ballast_volume ballast_too_much ! 0 /
               sum_list (cavity_volumes cylinder (fst (s_ballast_of ballast_too_much ! 0))
                                     (snd (s_ballast_of ballast_too_much ! 0))))"
    by blast
  have "c ! 0 = Fin (1000 / (pi * (2401 / 400)))"
    using r(4) pos unfolding v by (simp add: ballast_too_much_def)
  moreover have "length c = 1" using r(2) by (simp add: ballast_too_much_def)
  ultimately have "\<exists>m' c. add_circular_ballast_sections cylinder ballast_too_much column = Inr (m', c) \<and>
           length c = 1 \<and> exceeds_one (c ! 0) \<and> c ! 0 = Fin (1000 / (pi * (2401 / 400)))"
    using r(1,3) by blast
  moreover have "z_at cylinder = (\<lambda>s. 10 * s)" by (simp add: cylinder_def)
  moreover have "ballast_grid ballast_too_much = [(0, 1 / 10)]" by (simp add: ballast_too_much_def)
  ultimately show ?thesis using h1 h2 h4 h5 h7 h8 by blast
qed

end
